theory Spec2Isabelle
  imports
    Main
    "HOL-Library.Word"
    "HOL-Library.Char_ord"
    "HOL-Library.List_Lexorder"
begin

unbundle bit_operations_syntax

section \<open>The object format (ObjectFormat.h, Linker.h)\<close>

text \<open>
  All header and record fields are \<open>uint32_t\<close>; section contents are vectors of
  \<open>uint8_t\<close>.  The structs are packed, and the loader copies file bytes straight into
  them, so multi-byte fields have the byte order of the host; the model fixes it as
  little-endian.  \<open>size_t\<close> is taken to be wider than 32 bits, so that sizes of
  vectors and products of a count with a record size are natural numbers that do not
  wrap.  A write to an opened output stream succeeds.  Memory is bounded: the run starts
  with a number of bytes it can allocate, and the section vectors of the loader are taken
  from it.
\<close>

type_synonym u8 = "8 word"
type_synonym u32 = "32 word"

definition LINKER_MAGIC :: u32 where "LINKER_MAGIC = 0x4C4E4B31"

definition SECTION_TEXT :: u32 where "SECTION_TEXT = 0"
definition SECTION_DATA :: u32 where "SECTION_DATA = 1"

definition SYMBOL_UNDEFINED :: u32 where "SYMBOL_UNDEFINED = 0"
definition SYMBOL_DEFINED :: u32 where "SYMBOL_DEFINED = 1"

definition RELOC_ABSOLUTE :: u32 where "RELOC_ABSOLUTE = 0"
definition RELOC_RELATIVE :: u32 where "RELOC_RELATIVE = 1"

record FileHeader =
  magic :: u32
  text_size :: u32
  data_size :: u32
  symtable_count :: u32
  reloc_count :: u32

text \<open>
  The 64-byte name fields are kept as the C string every later use reads from them
  (\<open>needed_symbols.count(sym.name)\<close>, \<open>std::string sym_name(reloc.symbol_name)\<close>):
  the bytes before the first zero byte.  Where a field holds no zero byte the source
  reads on past the field; the model stops at its 64 bytes.
\<close>

record SymbolEntry =
  sym_name :: string
  sym_type :: u32
  sym_section :: u32
  sym_offset :: u32

record RelocEntry =
  reloc_offset :: u32
  reloc_symbol_name :: string
  reloc_type :: u32

record LoadedObject =
  filename :: string
  header :: FileHeader
  text_section :: "u8 list"
  data_section :: "u8 list"
  symbols :: "SymbolEntry list"
  relocs :: "RelocEntry list"
  text_base_addr :: u32
  data_base_addr :: u32

text \<open>
  Every \<open>return false\<close> of the source is an error value, named after the message
  printed before it.  Two further outcomes stand for executions that leave defined
  behaviour: a header compared or used although the file was too short to fill it
  (\<open>IndeterminateHeader\<close>), and a patch site outside the text buffer
  (\<open>MemoryViolation\<close>).  \<open>BadAlloc\<close> is the \<open>std::bad_alloc\<close> that
  \<open>vector::resize\<close> throws when the memory it asks for is not there: nothing in the
  program catches it, so the run is aborted at that point, before any output is opened.
\<close>

datatype error =
    CannotOpen string
  | InvalidFormat string
  | IndeterminateHeader string
  | DuplicateSymbol string
  | UndefinedSymbol string
  | UndefinedReference string string
  | RelocationOutOfBounds string
  | MemoryViolation string
  | OutputWriteError string
  | BadAlloc string

section \<open>Bytes and words\<close>

definition word_of_bytes :: "u8 list \<Rightarrow> u32" where
  "word_of_bytes bs = foldr (\<lambda>b w. ucast b OR push_bit 8 w) bs 0"

definition bytes_of_word :: "u32 \<Rightarrow> u8 list" where
  "bytes_of_word w = [ucast w, ucast (drop_bit 8 w), ucast (drop_bit 16 w), ucast (drop_bit 24 w)]"

definition load32 :: "u8 list \<Rightarrow> nat \<Rightarrow> u32" where
  "load32 bs p = word_of_bytes (take 4 (drop p bs))"

definition store32 :: "u8 list \<Rightarrow> nat \<Rightarrow> u32 \<Rightarrow> u8 list" where
  "store32 bs p w = take p bs @ bytes_of_word w @ drop (p + 4) bs"

definition c_string :: "u8 list \<Rightarrow> string" where
  "c_string bs = map (\<lambda>b. char_of (unat b)) (takeWhile (\<lambda>b. b \<noteq> 0) bs)"

section \<open>Files\<close>

text \<open>
  What a run finds around it: the contents of the files that can be opened for reading,
  the paths that can be opened for writing, and the number of bytes of memory that can
  still be allocated.
\<close>

record filesystem =
  files :: "string \<rightharpoonup> u8 list"
  writable :: "string \<Rightarrow> bool"
  free_memory :: nat

text \<open>
  An input stream: the bytes not yet read, and the fail bit.  \<open>read\<close> on a failed stream
  stores nothing; on a good one it stores the bytes there are, and sets the fail bit when
  they are fewer than asked for.
\<close>

record ifstream =
  unread :: "u8 list"
  failbit :: bool

definition stream_read :: "ifstream \<Rightarrow> u8 list \<Rightarrow> nat \<Rightarrow> u8 list \<times> ifstream" where
  "stream_read s buf n =
     (if failbit s then (buf, s)
      else (take n (unread s) @ drop (length (take n (unread s))) buf,
            \<lparr>unread = drop n (unread s), failbit = (length (unread s) < n)\<rparr>))"

section \<open>load_object_file\<close>

definition decode_header :: "u8 list \<Rightarrow> FileHeader" where
  "decode_header bs =
     \<lparr>magic = load32 bs 0, text_size = load32 bs 4, data_size = load32 bs 8,
      symtable_count = load32 bs 12, reloc_count = load32 bs 16\<rparr>"

definition decode_symbol :: "u8 list \<Rightarrow> SymbolEntry" where
  "decode_symbol bs =
     \<lparr>sym_name = c_string (take 64 bs), sym_type = load32 bs 64,
      sym_section = load32 bs 68, sym_offset = load32 bs 72\<rparr>"

definition decode_reloc :: "u8 list \<Rightarrow> RelocEntry" where
  "decode_reloc bs =
     \<lparr>reloc_offset = load32 bs 0, reloc_symbol_name = c_string (take 64 (drop 4 bs)),
      reloc_type = load32 bs 68\<rparr>"

fun split_records :: "nat \<Rightarrow> nat \<Rightarrow> u8 list \<Rightarrow> u8 list list" where
  "split_records sz 0 bs = []"
| "split_records sz (Suc n) bs = take sz bs # split_records sz n (drop sz bs)"

text \<open>
  \<open>resize(n)\<close> gives n zero bytes (zeroed records), and \<open>read\<close> is only called for a
  non-zero size.  No read is checked.
\<close>

definition read_section :: "ifstream \<Rightarrow> nat \<Rightarrow> u8 list \<times> ifstream" where
  "read_section s n =
     (if n > 0 then stream_read s (replicate n 0) n else (replicate n 0, s))"

text \<open>
  The four vectors of a module are resized one after the other, each before its read.  A
  \<open>resize\<close> to more bytes than are free throws, and the run is aborted; otherwise the
  bytes are taken from the free memory (\<open>m0\<close> to \<open>m3\<close> are the free bytes before
  each of the four).  A symbol record takes 76 bytes and a relocation record 72.  Only
  these vectors are counted: strings and the nodes of the name set and of the symbol
  table are not.
\<close>

definition load_object_file :: "filesystem \<Rightarrow> string \<Rightarrow> error + LoadedObject" where
  "load_object_file fs path =
     (case files fs path of
        None \<Rightarrow> Inl (CannotOpen path)
      | Some contents \<Rightarrow>
          if length contents < 4 then Inl (IndeterminateHeader path)
          else if load32 contents 0 \<noteq> LINKER_MAGIC then Inl (InvalidFormat path)
          else if length contents < 20 then Inl (IndeterminateHeader path)
          else
            let hdr = decode_header (take 20 contents);
                s0 = \<lparr>unread = drop 20 contents, failbit = False\<rparr>;
                m0 = free_memory fs
            in if m0 < unat (text_size hdr) then Inl (BadAlloc path)
            else
              let (text, s1) = read_section s0 (unat (text_size hdr));
                  m1 = m0 - unat (text_size hdr)
              in if m1 < unat (data_size hdr) then Inl (BadAlloc path)
              else
                let (data, s2) = read_section s1 (unat (data_size hdr));
                    m2 = m1 - unat (data_size hdr)
                in if m2 < unat (symtable_count hdr) * 76 then Inl (BadAlloc path)
                else
                  let (syms, s3) = read_section s2 (unat (symtable_count hdr) * 76);
                      m3 = m2 - unat (symtable_count hdr) * 76
                  in if m3 < unat (reloc_count hdr) * 72 then Inl (BadAlloc path)
                  else
                    let (rels, s4) = read_section s3 (unat (reloc_count hdr) * 72)
                    in Inr \<lparr>filename = path, header = hdr,
                             text_section = text, data_section = data,
                             symbols = map decode_symbol
                               (split_records 76 (unat (symtable_count hdr)) syms),
                             relocs = map decode_reloc
                               (split_records 72 (unat (reloc_count hdr)) rels),
                             text_base_addr = 0, data_base_addr = 0\<rparr>)"

section \<open>layout_and_define_symbols: dependency resolution\<close>

text \<open>
  The inner loop of pass 1: does the object define (\<open>SYMBOL_DEFINED\<close>) a symbol whose
  name is needed?  The loop stops at the first such symbol.
\<close>

fun provides_needed :: "string set \<Rightarrow> SymbolEntry list \<Rightarrow> bool" where
  "provides_needed needed [] = False"
| "provides_needed needed (s # syms) =
     (if sym_type s = SYMBOL_DEFINED \<and> sym_name s \<in> needed then True
      else provides_needed needed syms)"

text \<open>
  Pass 1 walks the objects and their activity flags side by side (\<open>object_active[i]\<close>
  belongs to \<open>objects[i]\<close>), threading \<open>changed\<close>.
\<close>

fun activate_objects ::
  "string set \<Rightarrow> LoadedObject list \<Rightarrow> bool list \<Rightarrow> bool \<Rightarrow> bool list \<times> bool" where
  "activate_objects needed (obj # objs) (a # as) changed =
     (if a then
        (let (as', c) = activate_objects needed objs as changed in (a # as', c))
      else if provides_needed needed (symbols obj) then
        (let (as', c) = activate_objects needed objs as True in (True # as', c))
      else
        (let (as', c) = activate_objects needed objs as changed in (a # as', c)))"
| "activate_objects needed objs as changed = ([], changed)"

text \<open>Pass 2: every relocation of an active object asks for its symbol.\<close>

fun collect_relocs :: "RelocEntry list \<Rightarrow> string set \<Rightarrow> bool \<Rightarrow> string set \<times> bool" where
  "collect_relocs [] needed changed = (needed, changed)"
| "collect_relocs (r # rs) needed changed =
     (if reloc_symbol_name r \<notin> needed
      then collect_relocs rs (insert (reloc_symbol_name r) needed) True
      else collect_relocs rs needed changed)"

fun collect_needs ::
  "LoadedObject list \<Rightarrow> bool list \<Rightarrow> string set \<Rightarrow> bool \<Rightarrow> string set \<times> bool" where
  "collect_needs (obj # objs) (a # as) needed changed =
     (if \<not> a then collect_needs objs as needed changed
      else (let (needed', c) = collect_relocs (relocs obj) needed changed
            in collect_needs objs as needed' c))"
| "collect_needs objs as needed changed = (needed, changed)"

text \<open>One run of the loop body, started with \<open>changed = false\<close>.\<close>

definition resolve_pass ::
  "LoadedObject list \<Rightarrow> string set \<times> bool list \<Rightarrow> (string set \<times> bool list) \<times> bool" where
  "resolve_pass objs st =
     (let (active', c1) = activate_objects (fst st) objs (snd st) False;
          (needed', c2) = collect_needs objs active' (fst st) c1
      in ((needed', active'), c2))"

text \<open>The names that relocations of the given objects mention.\<close>

definition reloc_names :: "LoadedObject list \<Rightarrow> string set" where
  "reloc_names objs = (\<Union>obj \<in> set objs. reloc_symbol_name ` set (relocs obj))"

lemma activate_objects_inactive:
  "activate_objects needed objs as c = (as', c') \<Longrightarrow>
     length (filter Not as') \<le> length (filter Not as) \<and>
     (c' \<and> \<not> c \<longrightarrow> length (filter Not as') < length (filter Not as))"
proof (induction needed objs as c arbitrary: as' c' rule: activate_objects.induct)
  case (1 needed obj objs a as changed)
  show ?case
  proof (cases a)
    case True
    obtain bs d where r: "activate_objects needed objs as changed = (bs, d)"
      by (cases "activate_objects needed objs as changed")
    with "1.prems" True have "as' = a # bs" "c' = d" by auto
    with "1.IH"(1) [OF True r] True show ?thesis by auto
  next
    case False
    show ?thesis
    proof (cases "provides_needed needed (symbols obj)")
      case True
      obtain bs d where r: "activate_objects needed objs as True = (bs, d)"
        by (cases "activate_objects needed objs as True")
      with "1.prems" False True have "as' = True # bs" "c' = d" by auto
      with "1.IH"(2) [OF False True r] False show ?thesis by auto
    next
      case nprov: False
      obtain bs d where r: "activate_objects needed objs as changed = (bs, d)"
        by (cases "activate_objects needed objs as changed")
      with "1.prems" False nprov have "as' = a # bs" "c' = d" by auto
      with "1.IH"(3) [OF False nprov r] False show ?thesis by auto
    qed
  qed
qed auto

lemma collect_relocs_grows:
  "collect_relocs rs needed c = (needed', c') \<Longrightarrow>
     needed' = needed \<union> reloc_symbol_name ` set rs \<and> (c' \<longleftrightarrow> c \<or> needed' \<noteq> needed)"
  by (induction rs needed c arbitrary: needed' c' rule: collect_relocs.induct)
     (auto split: if_splits)

lemma collect_needs_grows:
  "collect_needs objs as needed c = (needed', c') \<Longrightarrow>
     needed \<subseteq> needed' \<and> needed' \<subseteq> needed \<union> reloc_names objs \<and>
     (c' \<longleftrightarrow> c \<or> needed' \<noteq> needed)"
proof (induction objs as needed c arbitrary: needed' c' rule: collect_needs.induct)
  case (1 obj objs a as needed changed)
  show ?case
  proof (cases a)
    case False
    with "1.prems" have "collect_needs objs as needed changed = (needed', c')" by simp
    from "1.IH"(1) [OF _ this] False show ?thesis
      by (auto simp: reloc_names_def)
  next
    case True
    obtain n1 c1 where r: "collect_relocs (relocs obj) needed changed = (n1, c1)"
      by (cases "collect_relocs (relocs obj) needed changed")
    with "1.prems" True have k: "collect_needs objs as n1 c1 = (needed', c')" by simp
    from collect_relocs_grows [OF r]
    have n1: "n1 = needed \<union> reloc_symbol_name ` set (relocs obj)"
      and c1: "c1 \<longleftrightarrow> changed \<or> n1 \<noteq> needed" by auto
    from "1.IH"(2) [OF _ r [symmetric] refl k] True
    have ih: "n1 \<subseteq> needed'" "needed' \<subseteq> n1 \<union> reloc_names objs" "c' \<longleftrightarrow> c1 \<or> needed' \<noteq> n1"
      by auto
    show ?thesis
      using n1 c1 ih by (auto simp: reloc_names_def)
  qed
qed auto

lemma finite_reloc_names: "finite (reloc_names objs)"
  by (simp add: reloc_names_def)

text \<open>
  The \<open>while (changed)\<close> loop.  \<open>changed\<close> is true on entry, so the body runs at least
  once, and again whenever a run has set it.
\<close>

function resolve_loop ::
  "LoadedObject list \<Rightarrow> string set \<Rightarrow> bool list \<Rightarrow> string set \<times> bool list" where
  "resolve_loop objs needed active =
     (let (active', c1) = activate_objects needed objs active False;
          (needed', c2) = collect_needs objs active' needed c1
      in if c2 then resolve_loop objs needed' active' else (needed', active'))"
  by pat_completeness auto
termination
proof (relation "measure (\<lambda>(objs, needed, active).
         length (filter Not active) + card (reloc_names objs - needed))", goal_cases)
  case 1
  show ?case by simp
next
  case (2 objs needed active x active' c1 y needed' c2)
  from 2 have a: "activate_objects needed objs active False = (active', c1)" by simp
  from 2 have n: "collect_needs objs active' needed c1 = (needed', c2)" by simp
  note la = activate_objects_inactive [OF a]
  note ln = collect_needs_grows [OF n]
  have fin: "finite (reloc_names objs - needed)"
    using finite_reloc_names by simp
  have sub: "reloc_names objs - needed' \<subseteq> reloc_names objs - needed"
    using ln by auto
  show ?case
  proof (cases c1)
    case True
    with la have "length (filter Not active') < length (filter Not active)" by simp
    moreover have "card (reloc_names objs - needed') \<le> card (reloc_names objs - needed)"
      by (rule card_mono [OF fin sub])
    ultimately show ?thesis by simp
  next
    case False
    with ln \<open>c2\<close> have "needed' \<noteq> needed" by simp
    with ln have "reloc_names objs - needed' \<subset> reloc_names objs - needed" by auto
    then have "card (reloc_names objs - needed') < card (reloc_names objs - needed)"
      by (rule psubset_card_mono [OF fin])
    with la show ?thesis by simp
  qed
qed

section \<open>layout_and_define_symbols: layout and symbol definition\<close>

type_synonym symbol_table = "string \<rightharpoonup> u32"

text \<open>The objects whose flag is set, in their order.\<close>

definition active_objects :: "LoadedObject list \<Rightarrow> bool list \<Rightarrow> LoadedObject list" where
  "active_objects objs active = map fst (filter snd (zip objs active))"

definition symbol_address :: "LoadedObject \<Rightarrow> SymbolEntry \<Rightarrow> u32" where
  "symbol_address obj s =
     (if sym_section s = SECTION_TEXT then text_base_addr obj + sym_offset s
      else if sym_section s = SECTION_DATA then data_base_addr obj + sym_offset s
      else 0)"

text \<open>
  The symbols of one object: a defined symbol is registered only if it is needed, and
  a name already in the table stops the run.
\<close>

fun define_symbols ::
  "string set \<Rightarrow> LoadedObject \<Rightarrow> SymbolEntry list \<Rightarrow> symbol_table \<Rightarrow> error + symbol_table" where
  "define_symbols needed obj [] gst = Inr gst"
| "define_symbols needed obj (s # syms) gst =
     (if sym_type s = SYMBOL_DEFINED \<and> sym_name s \<in> needed then
        (if gst (sym_name s) \<noteq> None then Inl (DuplicateSymbol (sym_name s))
         else define_symbols needed obj syms (gst(sym_name s \<mapsto> symbol_address obj s)))
      else define_symbols needed obj syms gst)"

text \<open>
  The layout loop, with \<open>current_text_addr\<close> and \<open>current_data_addr\<close>: both are
  \<open>uint32_t\<close> and advance by the sizes the headers declare.
\<close>

fun layout_objects ::
  "string set \<Rightarrow> LoadedObject list \<Rightarrow> u32 \<Rightarrow> u32 \<Rightarrow> symbol_table \<Rightarrow>
     error + LoadedObject list \<times> symbol_table" where
  "layout_objects needed [] current_text_addr current_data_addr gst = Inr ([], gst)"
| "layout_objects needed (obj # objs) current_text_addr current_data_addr gst =
     (let obj' = obj\<lparr>text_base_addr := current_text_addr, data_base_addr := current_data_addr\<rparr>
      in case define_symbols needed obj' (symbols obj') gst of
           Inl e \<Rightarrow> Inl e
         | Inr gst' \<Rightarrow>
             (case layout_objects needed objs
                     (current_text_addr + text_size (header obj))
                     (current_data_addr + data_size (header obj)) gst' of
                Inl e \<Rightarrow> Inl e
              | Inr (objs', gst'') \<Rightarrow> Inr (obj' # objs', gst'')))"

text \<open>
  The last loop walks \<open>needed_symbols\<close>, a \<open>std::set\<close> of strings, in its order (bytes
  compared as unsigned, a prefix first) and stops at the first name without an address.
\<close>

fun verify_needed :: "string list \<Rightarrow> symbol_table \<Rightarrow> error + unit" where
  "verify_needed [] gst = Inr ()"
| "verify_needed (n # ns) gst =
     (if gst n = None then Inl (UndefinedSymbol n) else verify_needed ns gst)"

definition total_text :: "LoadedObject list \<Rightarrow> u32" where
  "total_text objs = fold (\<lambda>obj t. t + text_size (header obj)) objs 0"

definition total_data :: "LoadedObject list \<Rightarrow> u32" where
  "total_data objs = fold (\<lambda>obj t. t + data_size (header obj)) objs 0"

definition resolve :: "LoadedObject list \<Rightarrow> string set \<times> bool list" where
  "resolve objects = resolve_loop objects {''__START__''} (replicate (length objects) False)"

definition layout_and_define_symbols ::
  "LoadedObject list \<Rightarrow> symbol_table \<Rightarrow>
     error + LoadedObject list \<times> symbol_table \<times> u32 \<times> u32" where
  "layout_and_define_symbols objects global_symbol_table =
     (let (needed_symbols, object_active) = resolve objects;
          live = active_objects objects object_active;
          total_text_size = total_text live;
          total_data_size = total_data live
      in case layout_objects needed_symbols live 0 total_text_size global_symbol_table of
           Inl e \<Rightarrow> Inl e
         | Inr (objects', gst) \<Rightarrow>
             (case verify_needed (sorted_list_of_set needed_symbols) gst of
                Inl e \<Rightarrow> Inl e
              | Inr u \<Rightarrow> Inr (objects', gst, total_text_size, total_data_size)))"

section \<open>apply_relocations\<close>

text \<open>
  One relocation.  The bounds check adds 4 to \<open>patch_offset\<close> in \<open>uint32_t\<close> and
  compares the result with the size of the text vector.  When the check lets a site
  through that does not lie inside the vector, the accesses that follow are outside it.
  A type that is neither \<open>RELOC_ABSOLUTE\<close> nor \<open>RELOC_RELATIVE\<close> leaves
  \<open>value_to_write\<close> at 0 and takes the full overwrite.
\<close>

definition apply_reloc :: "symbol_table \<Rightarrow> LoadedObject \<Rightarrow> RelocEntry \<Rightarrow> error + LoadedObject" where
  "apply_reloc gst obj r =
     (case gst (reloc_symbol_name r) of
        None \<Rightarrow> Inl (UndefinedReference (reloc_symbol_name r) (filename obj))
      | Some target_addr \<Rightarrow>
          let patch_offset = reloc_offset r in
          if unat (patch_offset + 4) > length (text_section obj)
          then Inl (RelocationOutOfBounds (filename obj))
          else if unat patch_offset + 4 > length (text_section obj)
          then Inl (MemoryViolation (filename obj))
          else
            let instruction_addr = text_base_addr obj + patch_offset;
                value_to_write =
                  (if reloc_type r = RELOC_ABSOLUTE then target_addr
                   else if reloc_type r = RELOC_RELATIVE then target_addr - instruction_addr
                   else 0);
                existing = load32 (text_section obj) (unat patch_offset);
                new_word =
                  (if reloc_type r = RELOC_RELATIVE
                   then (existing AND 0xFC000000) OR (value_to_write AND 0x03FFFFFF)
                   else value_to_write)
            in Inr (obj\<lparr>text_section := store32 (text_section obj) (unat patch_offset) new_word\<rparr>))"

fun apply_relocs :: "symbol_table \<Rightarrow> LoadedObject \<Rightarrow> RelocEntry list \<Rightarrow> error + LoadedObject" where
  "apply_relocs gst obj [] = Inr obj"
| "apply_relocs gst obj (r # rs) =
     (case apply_reloc gst obj r of
        Inl e \<Rightarrow> Inl e
      | Inr obj' \<Rightarrow> apply_relocs gst obj' rs)"

fun apply_relocations :: "LoadedObject list \<Rightarrow> symbol_table \<Rightarrow> error + LoadedObject list" where
  "apply_relocations [] gst = Inr []"
| "apply_relocations (obj # objs) gst =
     (case apply_relocs gst obj (relocs obj) of
        Inl e \<Rightarrow> Inl e
      | Inr obj' \<Rightarrow>
          (case apply_relocations objs gst of
             Inl e \<Rightarrow> Inl e
           | Inr objs' \<Rightarrow> Inr (obj' # objs')))"

section \<open>write_output and link_objects\<close>

text \<open>
  The output stream is opened first; then every non-empty text section is written, then
  every non-empty data section.  The two totals are what the run prints; they are the
  value of a successful run here.
\<close>

definition write_output ::
  "filesystem \<Rightarrow> string \<Rightarrow> LoadedObject list \<Rightarrow> u32 \<Rightarrow> u32 \<Rightarrow> (error + u32 \<times> u32) \<times> filesystem" where
  "write_output fs output_path objects total_text_size total_data_size =
     (if \<not> writable fs output_path then (Inl (OutputWriteError output_path), fs)
      else
        let out1 = fold (\<lambda>obj out. if text_section obj \<noteq> [] then out @ text_section obj else out)
                     objects [];
            out2 = fold (\<lambda>obj out. if data_section obj \<noteq> [] then out @ data_section obj else out)
                     objects out1
        in (Inr (total_text_size, total_data_size),
            fs\<lparr>files := (files fs)(output_path \<mapsto> out2)\<rparr>))"

text \<open>
  The loop of \<open>link_objects\<close> over the input files.  A loaded module keeps its four
  vectors to the end of the run, so the files after it are loaded with that much less
  free memory.
\<close>

definition object_memory :: "LoadedObject \<Rightarrow> nat" where
  "object_memory obj =
     length (text_section obj) + length (data_section obj) +
     length (symbols obj) * 76 + length (relocs obj) * 72"

fun load_objects :: "filesystem \<Rightarrow> string list \<Rightarrow> error + LoadedObject list" where
  "load_objects fs [] = Inr []"
| "load_objects fs (path # paths) =
     (case load_object_file fs path of
        Inl e \<Rightarrow> Inl e
      | Inr obj \<Rightarrow>
          (case load_objects (fs\<lparr>free_memory := free_memory fs - object_memory obj\<rparr>) paths of
             Inl e \<Rightarrow> Inl e
           | Inr objs \<Rightarrow> Inr (obj # objs)))"

definition link_objects ::
  "filesystem \<Rightarrow> string list \<Rightarrow> string \<Rightarrow> (error + u32 \<times> u32) \<times> filesystem" where
  "link_objects fs input_files output_path =
     (case load_objects fs input_files of
        Inl e \<Rightarrow> (Inl e, fs)
      | Inr objects \<Rightarrow>
          (case layout_and_define_symbols objects Map.empty of
             Inl e \<Rightarrow> (Inl e, fs)
           | Inr (objects1, global_symbol_table, total_text_size, total_data_size) \<Rightarrow>
               (case apply_relocations objects1 global_symbol_table of
                  Inl e \<Rightarrow> (Inl e, fs)
                | Inr objects2 \<Rightarrow>
                    write_output fs output_path objects2 total_text_size total_data_size)))"

section \<open>Auxiliary notions for the statements\<close>


definition patched_word :: "symbol_table \<Rightarrow> LoadedObject \<Rightarrow> RelocEntry \<Rightarrow> u32" where
  "patched_word gst obj r =
     (let target_addr = the (gst (reloc_symbol_name r));
          existing = load32 (text_section obj) (unat (reloc_offset r))
      in if reloc_type r = RELOC_RELATIVE
         then (existing AND 0xFC000000) OR ((target_addr - (text_base_addr obj + reloc_offset r)) AND 0x03FFFFFF)
         else if reloc_type r = RELOC_ABSOLUTE then target_addr else 0)"

text \<open>
  Reachability as the specification words it.  A module exports a name when it holds a
  defined symbol of that name.  The needed names are the least set that contains the
  entry symbol and, with a name exported by some module, every name a relocation of that
  module mentions.  A module is reachable when it exports a needed name.
\<close>

definition exports :: "LoadedObject \<Rightarrow> string \<Rightarrow> bool" where
  "exports obj n \<longleftrightarrow> (\<exists>s \<in> set (symbols obj). sym_type s = SYMBOL_DEFINED \<and> sym_name s = n)"

inductive_set reachable_names :: "LoadedObject list \<Rightarrow> string set" for objs :: "LoadedObject list" where
  entry: "''__START__'' \<in> reachable_names objs"
| reference: "n \<in> reachable_names objs \<Longrightarrow> obj \<in> set objs \<Longrightarrow> exports obj n \<Longrightarrow>
     r \<in> set (relocs obj) \<Longrightarrow> reloc_symbol_name r \<in> reachable_names objs"

definition reachable_module :: "LoadedObject list \<Rightarrow> LoadedObject \<Rightarrow> bool" where
  "reachable_module objs obj \<longleftrightarrow> (\<exists>n \<in> reachable_names objs. exports obj n)"

text \<open>
  The loop variables \<open>(needed_symbols, object_active)\<close> after n runs of the loop body,
  from the initial ones; \<open>resolve_pass\<close> at that state is the next run and the value of
  \<open>changed\<close> after it.
\<close>

definition resolve_state :: "LoadedObject list \<Rightarrow> nat \<Rightarrow> string set \<times> bool list" where
  "resolve_state objs n =
     ((\<lambda>st. fst (resolve_pass objs st)) ^^ n) ({''__START__''}, replicate (length objs) False)"

text \<open>
  The names the binder registers: those of the defined symbols that are needed, in the
  order of the symbol table, module after module.
\<close>

definition defined_names :: "string set \<Rightarrow> SymbolEntry list \<Rightarrow> string list" where
  "defined_names needed syms =
     map sym_name (filter (\<lambda>s. sym_type s = SYMBOL_DEFINED \<and> sym_name s \<in> needed) syms)"

definition registered_names :: "string set \<Rightarrow> LoadedObject list \<Rightarrow> string list" where
  "registered_names needed objs = concat (map (\<lambda>obj. defined_names needed (symbols obj)) objs)"

text \<open>The first n bytes of a byte sequence, with zero bytes where it is shorter.\<close>

definition zero_padded :: "nat \<Rightarrow> u8 list \<Rightarrow> u8 list" where
  "zero_padded n bs = take n bs @ replicate (n - length bs) 0"


section \<open>Concrete object files\<close>

text \<open>
  The bytes of an object file with the given sections and tables, in the layout the
  loader reads: header, text, data, symbol records, relocation records.  Every run below
  starts with 64 GiB of free memory (\<open>2 ^ 36\<close> bytes).
\<close>

definition name_field :: "string \<Rightarrow> u8 list" where
  "name_field s = map (\<lambda>c. of_nat (of_char c)) s @ replicate (64 - length s) 0"

definition encode_symbol :: "SymbolEntry \<Rightarrow> u8 list" where
  "encode_symbol s =
     name_field (sym_name s) @ bytes_of_word (sym_type s) @
     bytes_of_word (sym_section s) @ bytes_of_word (sym_offset s)"

definition encode_reloc :: "RelocEntry \<Rightarrow> u8 list" where
  "encode_reloc r =
     bytes_of_word (reloc_offset r) @ name_field (reloc_symbol_name r) @
     bytes_of_word (reloc_type r)"

definition object_file :: "u8 list \<Rightarrow> u8 list \<Rightarrow> SymbolEntry list \<Rightarrow> RelocEntry list \<Rightarrow> u8 list" where
  "object_file t d ss rs =
     bytes_of_word LINKER_MAGIC @ bytes_of_word (of_nat (length t)) @
     bytes_of_word (of_nat (length d)) @ bytes_of_word (of_nat (length ss)) @
     bytes_of_word (of_nat (length rs)) @
     t @ d @ concat (map encode_symbol ss) @ concat (map encode_reloc rs)"

text \<open>The object the loader builds from such a file.\<close>

definition loaded :: "string \<Rightarrow> u8 list \<Rightarrow> u8 list \<Rightarrow> SymbolEntry list \<Rightarrow> RelocEntry list \<Rightarrow> LoadedObject" where
  "loaded path t d ss rs =
     \<lparr>filename = path,
      header = \<lparr>magic = LINKER_MAGIC, text_size = of_nat (length t), data_size = of_nat (length d),
                symtable_count = of_nat (length ss), reloc_count = of_nat (length rs)\<rparr>,
      text_section = t, data_section = d, symbols = ss, relocs = rs,
      text_base_addr = 0, data_base_addr = 0\<rparr>"

definition exported :: "string \<Rightarrow> u32 \<Rightarrow> u32 \<Rightarrow> SymbolEntry" where
  "exported n sec off = \<lparr>sym_name = n, sym_type = SYMBOL_DEFINED, sym_section = sec, sym_offset = off\<rparr>"

definition imported :: "string \<Rightarrow> SymbolEntry" where
  "imported n = \<lparr>sym_name = n, sym_type = SYMBOL_UNDEFINED, sym_section = 0, sym_offset = 0\<rparr>"

definition reloc :: "u32 \<Rightarrow> string \<Rightarrow> u32 \<Rightarrow> RelocEntry" where
  "reloc off n ty = \<lparr>reloc_offset = off, reloc_symbol_name = n, reloc_type = ty\<rparr>"

text \<open>
  Module A holds one branch instruction, exports the entry symbol and refers to
  \<open>helper\<close>; module B exports \<open>helper\<close>; module C exports a symbol nobody refers to.
\<close>

definition syms_a :: "SymbolEntry list" where
  "syms_a = [exported ''__START__'' SECTION_TEXT 0, imported ''helper'']"

definition relocs_a :: "RelocEntry list" where
  "relocs_a = [reloc 0 ''helper'' RELOC_RELATIVE]"

definition obj_a :: LoadedObject where
  "obj_a = loaded ''a.obj'' [0x12, 0x34, 0x56, 0xAB] [0x11] syms_a relocs_a"

definition obj_b :: LoadedObject where
  "obj_b = loaded ''b.obj'' [1, 2, 3, 4] [0x22, 0x33] [exported ''helper'' SECTION_TEXT 0] []"

definition obj_c :: LoadedObject where
  "obj_c = loaded ''c.obj'' [9, 9, 9, 9] [0x44] [exported ''unused'' SECTION_TEXT 0] []"

text \<open>A and B after layout, their symbol table, and A after patching.\<close>

definition laid_a :: LoadedObject where
  "laid_a = obj_a\<lparr>text_base_addr := 0, data_base_addr := 8\<rparr>"

definition laid_b :: LoadedObject where
  "laid_b = obj_b\<lparr>text_base_addr := 4, data_base_addr := 9\<rparr>"

definition gst_ab :: symbol_table where
  "gst_ab = [''__START__'' \<mapsto> 0, ''helper'' \<mapsto> 4]"

definition patched_a :: LoadedObject where
  "patched_a = laid_a\<lparr>text_section := [0x04, 0, 0, 0xA8]\<rparr>"

text \<open>
  Module O has two absolute relocations at the same site, the first to \<open>other\<close>
  (address 4), the second to the entry symbol (address 0).
\<close>

definition obj_o :: LoadedObject where
  "obj_o = loaded ''o.obj'' [0xFF, 0xFF, 0xFF, 0xFF, 0xFF, 0xFF, 0xFF, 0xFF] []
     [exported ''__START__'' SECTION_TEXT 0, exported ''other'' SECTION_TEXT 4]
     [reloc 0 ''other'' RELOC_ABSOLUTE, reloc 0 ''__START__'' RELOC_ABSOLUTE]"

definition laid_o :: LoadedObject where
  "laid_o = obj_o\<lparr>text_base_addr := 0, data_base_addr := 8\<rparr>"

definition patched_o :: LoadedObject where
  "patched_o = laid_o\<lparr>text_section := [0, 0, 0, 0, 0xFF, 0xFF, 0xFF, 0xFF]\<rparr>"

definition gst_o :: symbol_table where
  "gst_o = [''__START__'' \<mapsto> 0, ''other'' \<mapsto> 4]"

text \<open>
  Module W has four bytes of text and a relocation at offset \<open>0xFFFFFFFC\<close>, written
  as an object file and as the loader reads it.
\<close>

definition relocs_w :: "RelocEntry list" where
  "relocs_w = [reloc 0xFFFFFFFC ''__START__'' RELOC_ABSOLUTE]"

definition file_w :: "u8 list" where
  "file_w = object_file [0, 0, 0, 0] [] [exported ''__START__'' SECTION_TEXT 0] relocs_w"

definition obj_w :: LoadedObject where
  "obj_w = loaded ''w.obj'' [0, 0, 0, 0] [] [exported ''__START__'' SECTION_TEXT 0] relocs_w"

definition fs_w :: filesystem where
  "fs_w = \<lparr>files = [''w.obj'' \<mapsto> file_w], writable = (\<lambda>p. True), free_memory = 68719476736\<rparr>"

text \<open>The file an object is loaded from.\<close>

definition file_of :: "LoadedObject \<Rightarrow> u8 list" where
  "file_of obj = object_file (text_section obj) (data_section obj) (symbols obj) (relocs obj)"

text \<open>
  Modules D1 and D2 both export \<open>shared\<close>, to which nothing refers; E1 is D1 with a
  second relocation, to \<open>shared\<close>.
\<close>

definition syms_d1 :: "SymbolEntry list" where
  "syms_d1 = [exported ''__START__'' SECTION_TEXT 0, exported ''shared'' SECTION_TEXT 0,
              imported ''helper'']"

definition obj_d1 :: LoadedObject where
  "obj_d1 = loaded ''d1.obj'' [0, 0, 0, 0] [] syms_d1 [reloc 0 ''helper'' RELOC_RELATIVE]"

definition obj_d2 :: LoadedObject where
  "obj_d2 = loaded ''d2.obj'' [0, 0, 0, 0] []
     [exported ''helper'' SECTION_TEXT 0, exported ''shared'' SECTION_TEXT 0] []"

definition obj_e1 :: LoadedObject where
  "obj_e1 = loaded ''e1.obj'' [0, 0, 0, 0, 0, 0, 0, 0] [] syms_d1
     [reloc 0 ''helper'' RELOC_RELATIVE, reloc 4 ''shared'' RELOC_ABSOLUTE]"

definition fs_d :: filesystem where
  "fs_d = \<lparr>files = [''d1.obj'' \<mapsto> file_of obj_d1, ''d2.obj'' \<mapsto> file_of obj_d2,
                    ''e1.obj'' \<mapsto> file_of obj_e1],
           writable = (\<lambda>p. True), free_memory = 68719476736\<rparr>"

text \<open>Module U exports the entry symbol and refers to \<open>missing\<close>, which nobody defines.\<close>

definition obj_u :: LoadedObject where
  "obj_u = loaded ''u.obj'' [0, 0, 0, 0] [] [exported ''__START__'' SECTION_TEXT 0]
     [reloc 0 ''missing'' RELOC_ABSOLUTE]"

definition fs_u :: filesystem where
  "fs_u = \<lparr>files = [''u.obj'' \<mapsto> file_of obj_u, ''c.obj'' \<mapsto> file_of obj_c],
           writable = (\<lambda>p. True), free_memory = 68719476736\<rparr>"

text \<open>
  Three files that end early.  The first declares four bytes of text and holds two.  The
  second is the file of module T2 cut off six bytes before the end of its only symbol
  record.  The third is a header alone, declaring \<open>2 ^ 32 - 1\<close> symbol records.
\<close>

definition file_t :: "u8 list" where
  "file_t = bytes_of_word LINKER_MAGIC @ bytes_of_word 4 @ bytes_of_word 0 @
            bytes_of_word 0 @ bytes_of_word 0 @ [0xAA, 0xBB]"

definition obj_t :: LoadedObject where
  "obj_t = \<lparr>filename = ''t.obj'',
            header = \<lparr>magic = LINKER_MAGIC, text_size = 4, data_size = 0,
                      symtable_count = 0, reloc_count = 0\<rparr>,
            text_section = [0xAA, 0xBB, 0, 0], data_section = [], symbols = [], relocs = [],
            text_base_addr = 0, data_base_addr = 0\<rparr>"

definition obj_t2 :: LoadedObject where
  "obj_t2 = loaded ''t2.obj'' [1, 2, 3, 4] [] [exported ''__START__'' SECTION_TEXT 0] []"

definition file_t2 :: "u8 list" where
  "file_t2 = take 94 (file_of obj_t2)"

definition file_h :: "u8 list" where
  "file_h = bytes_of_word LINKER_MAGIC @ bytes_of_word 0 @ bytes_of_word 0 @
            bytes_of_word 0xFFFFFFFF @ bytes_of_word 0"

definition fs_t :: filesystem where
  "fs_t = \<lparr>files = [''t.obj'' \<mapsto> file_t, ''t2.obj'' \<mapsto> file_t2, ''h.obj'' \<mapsto> file_h],
           writable = (\<lambda>p. True), free_memory = 68719476736\<rparr>"

text \<open>
  Modules X and Y each hold \<open>2 ^ 31\<close> zero bytes of text and export one symbol; module S
  exports the entry symbol and refers to both.
\<close>

definition zeros31 :: "u8 list" where
  "zeros31 = replicate (2 ^ 31) 0"

definition obj_s :: LoadedObject where
  "obj_s = loaded ''s.obj'' [0, 0, 0, 0, 0, 0, 0, 0] [] [exported ''__START__'' SECTION_TEXT 0]
     [reloc 0 ''x'' RELOC_ABSOLUTE, reloc 4 ''y'' RELOC_ABSOLUTE]"

definition obj_x :: LoadedObject where
  "obj_x = loaded ''x.obj'' zeros31 [] [exported ''x'' SECTION_TEXT 0] []"

definition obj_y :: LoadedObject where
  "obj_y = loaded ''y.obj'' zeros31 [] [exported ''y'' SECTION_TEXT 0] []"

definition fs_big :: filesystem where
  "fs_big = \<lparr>files = [''s.obj'' \<mapsto> file_of obj_s, ''x.obj'' \<mapsto> file_of obj_x,
                      ''y.obj'' \<mapsto> file_of obj_y],
             writable = (\<lambda>p. True), free_memory = 68719476736\<rparr>"


lemmas input_defs =
  obj_a_def obj_b_def obj_c_def loaded_def exported_def imported_def reloc_def syms_a_def
  relocs_a_def laid_a_def laid_b_def gst_ab_def patched_a_def obj_o_def laid_o_def patched_o_def gst_o_def
  relocs_w_def obj_w_def syms_d1_def obj_d1_def obj_d2_def obj_e1_def obj_u_def obj_t_def obj_t2_def obj_s_def obj_x_def obj_y_def
  SYMBOL_DEFINED_def SYMBOL_UNDEFINED_def SECTION_TEXT_def SECTION_DATA_def
  RELOC_ABSOLUTE_def RELOC_RELATIVE_def LINKER_MAGIC_def

section \<open>Facts about bytes and words\<close>

lemma word_of_bytes_of_word: "word_of_bytes (bytes_of_word w) = w"
proof (rule bit_word_eqI)
  fix n assume "n < LENGTH(32)"
  then have n: "n < 32" by simp
  consider "n < 8" | "8 \<le> n" "n < 16" | "16 \<le> n" "n < 24" | "24 \<le> n" "n < 32"
    using n by linarith
  then show "bit (word_of_bytes (bytes_of_word w)) n = bit w n"
    by cases (auto simp: word_of_bytes_def bytes_of_word_def bit_simps)
qed

lemma length_bytes_of_word: "length (bytes_of_word w) = 4"
  by (simp add: bytes_of_word_def)

lemma length_store32: "p + 4 \<le> length bs \<Longrightarrow> length (store32 bs p w) = length bs"
  by (simp add: store32_def length_bytes_of_word)


lemma nth_store32_other:
  "p + 4 \<le> length bs \<Longrightarrow> b < p \<or> p + 4 \<le> b \<Longrightarrow> store32 bs p w ! b = bs ! b"
  by (auto simp: store32_def nth_append length_bytes_of_word)


section \<open>Facts about the relocation engine\<close>

lemma apply_reloc_Inr:
  assumes "apply_reloc gst obj r = Inr obj'"
  shows "gst (reloc_symbol_name r) \<noteq> None"
    and "unat (reloc_offset r) + 4 \<le> length (text_section obj)"
    and "obj' = obj\<lparr>text_section := store32 (text_section obj) (unat (reloc_offset r)) (patched_word gst obj r)\<rparr>"
  using assms
  by (auto simp: apply_reloc_def patched_word_def Let_def RELOC_ABSOLUTE_def RELOC_RELATIVE_def
           split: option.splits if_splits)

lemma apply_relocs_frame:
  "apply_relocs gst obj rs = Inr obj' \<Longrightarrow>
     obj'\<lparr>text_section := text_section obj\<rparr> = obj \<and>
     length (text_section obj') = length (text_section obj) \<and>
     (\<forall>b. (\<forall>r \<in> set rs. b < unat (reloc_offset r) \<or> unat (reloc_offset r) + 4 \<le> b) \<longrightarrow>
          text_section obj' ! b = text_section obj ! b)"
proof (induction rs arbitrary: obj)
  case Nil
  then show ?case by simp
next
  case (Cons r rs)
  from Cons.prems obtain obj1 where
    s1: "apply_reloc gst obj r = Inr obj1" and s2: "apply_relocs gst obj1 rs = Inr obj'"
    by (auto split: sum.splits)
  note a = apply_reloc_Inr [OF s1]
  note ih = Cons.IH [OF s2]
  have t1: "text_section obj1 = store32 (text_section obj) (unat (reloc_offset r)) (patched_word gst obj r)"
    using a(3) by simp
  have "obj'\<lparr>text_section := text_section obj\<rparr> = obj"
  proof -
    have "obj'\<lparr>text_section := text_section obj\<rparr> = (obj'\<lparr>text_section := text_section obj1\<rparr>)\<lparr>text_section := text_section obj\<rparr>"
      by simp
    also have "\<dots> = obj1\<lparr>text_section := text_section obj\<rparr>" using ih by simp
    also have "\<dots> = obj" using a(3) by simp
    finally show ?thesis .
  qed
  moreover have "length (text_section obj') = length (text_section obj)"
    using ih t1 a(2) by (simp add: length_store32)
  moreover have "\<forall>b. (\<forall>r' \<in> set (r # rs). b < unat (reloc_offset r') \<or> unat (reloc_offset r') + 4 \<le> b) \<longrightarrow>
          text_section obj' ! b = text_section obj ! b"
  proof (intro allI impI)
    fix b assume out: "\<forall>r' \<in> set (r # rs). b < unat (reloc_offset r') \<or> unat (reloc_offset r') + 4 \<le> b"
    then have "text_section obj' ! b = text_section obj1 ! b" using ih by simp
    also have "\<dots> = text_section obj ! b"
      using out a(2) by (simp add: t1 nth_store32_other)
    finally show "text_section obj' ! b = text_section obj ! b" .
  qed
  ultimately show ?case by blast
qed



lemma apply_relocations_nth:
  "apply_relocations objs gst = Inr objs' \<Longrightarrow>
     length objs' = length objs \<and>
     (\<forall>k < length objs. apply_relocs gst (objs ! k) (relocs (objs ! k)) = Inr (objs' ! k))"
proof (induction objs arbitrary: objs')
  case Nil
  then show ?case by simp
next
  case (Cons obj objs)
  from Cons.prems obtain obj1 objs1 where
    s1: "apply_relocs gst obj (relocs obj) = Inr obj1" and
    s2: "apply_relocations objs gst = Inr objs1" and e: "objs' = obj1 # objs1"
    by (auto split: sum.splits)
  from Cons.IH [OF s2] s1 e show ?case
    by (auto simp: nth_Cons split: nat.splits)
qed

lemma apply_reloc_out_of_bounds:
  assumes "gst (reloc_symbol_name r) = Some target"
    and "length (text_section obj) < unat (reloc_offset r) + 4"
  shows "apply_reloc gst obj r =
     (if reloc_offset r \<le> 0xFFFFFFFB \<or> length (text_section obj) < unat (reloc_offset r + 4)
      then Inl (RelocationOutOfBounds (filename obj))
      else Inl (MemoryViolation (filename obj)))"
proof (cases "reloc_offset r \<le> 0xFFFFFFFB")
  case True
  then have "unat (reloc_offset r) \<le> 4294967291" by (simp add: word_le_nat_alt)
  then have "unat (reloc_offset r) + unat (4 :: u32) < 2 ^ 32" by simp
  then have "unat (reloc_offset r + 4) = unat (reloc_offset r) + unat (4 :: u32)"
    by (intro unat_add_lem [THEN iffD1]) simp
  with assms True show ?thesis by (simp add: apply_reloc_def)
next
  case False
  with assms show ?thesis by (simp add: apply_reloc_def)
qed

section \<open>Facts about dependency resolution\<close>

lemma provides_needed_iff:
  "provides_needed needed syms \<longleftrightarrow>
     (\<exists>s \<in> set syms. sym_type s = SYMBOL_DEFINED \<and> sym_name s \<in> needed)"
  by (induction syms) auto

lemma provides_needed_exports:
  "provides_needed needed (symbols obj) \<longleftrightarrow> (\<exists>n \<in> needed. exports obj n)"
  by (auto simp: provides_needed_iff exports_def)

lemma activate_objects_flags:
  "length as = length objs \<Longrightarrow> activate_objects needed objs as c = (as', c') \<Longrightarrow>
     as' = map (\<lambda>(obj, a). a \<or> provides_needed needed (symbols obj)) (zip objs as) \<and>
     (c' \<longleftrightarrow> c \<or> as' \<noteq> as)"
proof (induction needed objs as c arbitrary: as' c' rule: activate_objects.induct)
  case (1 needed obj objs a as changed)
  from "1.prems"(1) have len: "length as = length objs" by simp
  show ?case
  proof (cases a)
    case True
    obtain bs d where r: "activate_objects needed objs as changed = (bs, d)"
      by (cases "activate_objects needed objs as changed")
    with "1.prems" True have e: "as' = a # bs" "c' = d" by auto
    from "1.IH"(1) [OF True len r] e True show ?thesis by auto
  next
    case False
    show ?thesis
    proof (cases "provides_needed needed (symbols obj)")
      case True
      obtain bs d where r: "activate_objects needed objs as True = (bs, d)"
        by (cases "activate_objects needed objs as True")
      with "1.prems" False True have e: "as' = True # bs" "c' = d" by auto
      from "1.IH"(2) [OF False True len r] e False True show ?thesis by auto
    next
      case nprov: False
      obtain bs d where r: "activate_objects needed objs as changed = (bs, d)"
        by (cases "activate_objects needed objs as changed")
      with "1.prems" False nprov have e: "as' = a # bs" "c' = d" by auto
      from "1.IH"(3) [OF False nprov len r] e False nprov show ?thesis by auto
    qed
  qed
qed auto

lemma reloc_names_Cons:
  "reloc_names (obj # objs) = reloc_symbol_name ` set (relocs obj) \<union> reloc_names objs"
  by (simp add: reloc_names_def)

lemma collect_needs_names:
  "collect_needs objs as needed c = (needed', c') \<Longrightarrow>
     needed' = needed \<union> reloc_names (active_objects objs as)"
proof (induction objs as needed c arbitrary: needed' c' rule: collect_needs.induct)
  case (1 obj objs a as needed changed)
  show ?case
  proof (cases a)
    case False
    with "1.prems" have k: "collect_needs objs as needed changed = (needed', c')" by simp
    from "1.IH"(1) [OF _ k] False show ?thesis
      by (simp add: active_objects_def)
  next
    case True
    obtain n1 c1 where r: "collect_relocs (relocs obj) needed changed = (n1, c1)"
      by (cases "collect_relocs (relocs obj) needed changed")
    with "1.prems" True have k: "collect_needs objs as n1 c1 = (needed', c')" by simp
    from collect_relocs_grows [OF r]
    have n1: "n1 = needed \<union> reloc_symbol_name ` set (relocs obj)" by simp
    from "1.IH"(2) [OF _ r [symmetric] refl k] True
    have "needed' = n1 \<union> reloc_names (active_objects objs as)"
      by simp
    with n1 True show ?thesis
      by (simp add: active_objects_def reloc_names_Cons Un_assoc)
  qed
qed (simp_all add: active_objects_def reloc_names_def)

lemma active_objects_filter:
  "length as = length objs \<Longrightarrow> \<forall>i < length objs. as ! i \<longleftrightarrow> P (objs ! i) \<Longrightarrow>
     active_objects objs as = filter P objs"
proof (induction objs as rule: list_induct2')
  case (4 obj objs a as)
  from "4.prems"(2) have h: "a \<longleftrightarrow> P obj" by auto
  have t: "\<forall>i < length objs. as ! i \<longleftrightarrow> P (objs ! i)"
  proof (intro allI impI)
    fix i assume "i < length objs"
    then have "Suc i < length (obj # objs)" by simp
    with "4.prems"(2) have "(a # as) ! Suc i \<longleftrightarrow> P ((obj # objs) ! Suc i)" by blast
    then show "as ! i \<longleftrightarrow> P (objs ! i)" by simp
  qed
  from "4.IH" [OF _ t] "4.prems"(1) h show ?case
    by (simp add: active_objects_def)
qed (simp_all add: active_objects_def)

lemma set_active_objects:
  "length as = length objs \<Longrightarrow>
     set (active_objects objs as) = {objs ! i | i. i < length objs \<and> as ! i}"
  by (auto simp: active_objects_def set_zip image_iff) force+


lemma resolve_loop_unfold:
  "activate_objects needed objs active False = (active', c1) \<Longrightarrow>
   collect_needs objs active' needed c1 = (needed', c2) \<Longrightarrow>
   resolve_loop objs needed active =
     (if c2 then resolve_loop objs needed' active' else (needed', active'))"
  by (subst resolve_loop.simps) simp

lemma resolve_loop_reachable:
  "length active = length objs \<Longrightarrow> ''__START__'' \<in> needed \<Longrightarrow>
   needed \<subseteq> reachable_names objs \<Longrightarrow>
   \<forall>i < length objs. active ! i \<longrightarrow> reachable_module objs (objs ! i) \<Longrightarrow>
   resolve_loop objs needed active = (nf, af) \<Longrightarrow>
   nf = reachable_names objs \<and> length af = length objs \<and>
   (\<forall>i < length objs. af ! i \<longleftrightarrow> reachable_module objs (objs ! i))"
proof (induction objs needed active rule: resolve_loop.induct)
  case (1 objs needed active)
  obtain active' c1 where a: "activate_objects needed objs active False = (active', c1)"
    by (cases "activate_objects needed objs active False")
  obtain needed' c2 where n: "collect_needs objs active' needed c1 = (needed', c2)"
    by (cases "collect_needs objs active' needed c1")
  note len = "1.prems"(1)
  from activate_objects_flags [OF len a]
  have act: "active' = map (\<lambda>(obj, a). a \<or> provides_needed needed (symbols obj)) (zip objs active)"
    and c1: "c1 \<longleftrightarrow> active' \<noteq> active" by simp_all
  have len': "length active' = length objs" using len by (simp add: act)
  have nth': "\<And>i. i < length objs \<Longrightarrow>
      active' ! i \<longleftrightarrow> active ! i \<or> provides_needed needed (symbols (objs ! i))"
    using len by (simp add: act)
  have names: "needed' = needed \<union> reloc_names (active_objects objs active')"
    by (rule collect_needs_names [OF n])
  have c2: "c2 \<longleftrightarrow> c1 \<or> needed' \<noteq> needed"
    using collect_needs_grows [OF n] by simp
  have inv': "\<forall>i < length objs. active' ! i \<longrightarrow> reachable_module objs (objs ! i)"
  proof (intro allI impI)
    fix i assume i: "i < length objs" and "active' ! i"
    then consider "active ! i" | "provides_needed needed (symbols (objs ! i))"
      using nth' by blast
    then show "reachable_module objs (objs ! i)"
    proof cases
      case 1
      with "1.prems"(4) i show ?thesis by blast
    next
      case 2
      then obtain m where "m \<in> needed" "exports (objs ! i) m"
        by (auto simp: provides_needed_exports)
      with "1.prems"(3) show ?thesis by (auto simp: reachable_module_def)
    qed
  qed
  have sub': "needed' \<subseteq> reachable_names objs"
  proof
    fix x assume "x \<in> needed'"
    then consider "x \<in> needed" | "x \<in> reloc_names (active_objects objs active')"
      using names by blast
    then show "x \<in> reachable_names objs"
    proof cases
      case 1
      with "1.prems"(3) show ?thesis by blast
    next
      case 2
      then obtain obj r where o: "obj \<in> set (active_objects objs active')"
        and r: "r \<in> set (relocs obj)" and x: "x = reloc_symbol_name r"
        by (auto simp: reloc_names_def)
      from o obtain i where i: "i < length objs" "active' ! i" "obj = objs ! i"
        by (auto simp: set_active_objects [OF len'])
      with inv' have "reachable_module objs obj" by blast
      then obtain m where "m \<in> reachable_names objs" "exports obj m"
        by (auto simp: reachable_module_def)
      moreover have "obj \<in> set objs" using i by simp
      ultimately show ?thesis using r x by (auto intro: reachable_names.reference)
    qed
  qed
  have start': "''__START__'' \<in> needed'" using names "1.prems"(2) by simp
  note unf = resolve_loop_unfold [OF a n]
  show ?case
  proof (cases c2)
    case True
    with unf "1.prems"(5) have r: "resolve_loop objs needed' active' = (nf, af)" by simp
    show ?thesis
      by (rule "1.IH" [OF a [symmetric] refl n [symmetric] refl True len' start' sub' inv' r])
  next
    case False
    with unf "1.prems"(5) have fin: "nf = needed'" "af = active'" by simp_all
    from False c2 c1 have same: "active' = active" "needed' = needed" by simp_all
    have "reachable_names objs \<subseteq> needed"
    proof
      fix x assume "x \<in> reachable_names objs"
      then show "x \<in> needed"
      proof (induction rule: reachable_names.induct)
        case entry
        show ?case by (rule "1.prems"(2))
      next
        case (reference m obj r)
        from reference.hyps(2) obtain i where i: "i < length objs" "obj = objs ! i"
          by (auto simp: in_set_conv_nth)
        have "provides_needed needed (symbols obj)"
          using reference.IH reference.hyps(3) by (auto simp: provides_needed_exports)
        with nth' i have "active' ! i" by simp
        with i have "obj \<in> set (active_objects objs active')"
          by (auto simp: set_active_objects [OF len'])
        with reference.hyps(4) have "reloc_symbol_name r \<in> reloc_names (active_objects objs active')"
          by (auto simp: reloc_names_def)
        with names same show ?case by blast
      qed
    qed
    with "1.prems"(3) have eq: "needed = reachable_names objs" by blast
    have "\<forall>i < length objs. active' ! i \<longleftrightarrow> reachable_module objs (objs ! i)"
    proof (intro allI impI iffI)
      fix i assume i: "i < length objs" and "active' ! i"
      with inv' show "reachable_module objs (objs ! i)" by blast
    next
      fix i assume i: "i < length objs" and "reachable_module objs (objs ! i)"
      then have "provides_needed needed (symbols (objs ! i))"
        by (auto simp: reachable_module_def provides_needed_exports eq)
      with nth' i show "active' ! i" by simp
    qed
    with fin same eq len' show ?thesis by simp
  qed
qed

lemma resolve_characterisation:
  "fst (resolve objs) = reachable_names objs \<and>
   length (snd (resolve objs)) = length objs \<and>
   (\<forall>i < length objs. snd (resolve objs) ! i \<longleftrightarrow> reachable_module objs (objs ! i)) \<and>
   active_objects objs (snd (resolve objs)) = filter (reachable_module objs) objs"
proof -
  obtain nf af where r: "resolve objs = (nf, af)" by (cases "resolve objs")
  then have l: "resolve_loop objs {''__START__''} (replicate (length objs) False) = (nf, af)"
    by (simp add: resolve_def)
  have "nf = reachable_names objs \<and> length af = length objs \<and>
     (\<forall>i < length objs. af ! i \<longleftrightarrow> reachable_module objs (objs ! i))"
    by (rule resolve_loop_reachable [OF _ _ _ _ l])
       (auto intro: reachable_names.entry)
  moreover from this have "active_objects objs af = filter (reachable_module objs) objs"
    by (intro active_objects_filter) simp_all
  ultimately show ?thesis by (simp add: r)
qed

lemma resolve_pass_eq:
  "activate_objects needed objs active False = (active', c1) \<Longrightarrow>
   collect_needs objs active' needed c1 = (needed', c2) \<Longrightarrow>
   resolve_pass objs (needed, active) = ((needed', active'), c2)"
  by (simp add: resolve_pass_def)

lemma resolve_pass_measure:
  assumes "resolve_pass objs (needed, active) = ((needed', active'), c)"
  shows "needed \<subseteq> needed'" and "needed' \<subseteq> needed \<union> reloc_names objs"
    and "c \<Longrightarrow> length (filter Not active') + card (reloc_names objs - needed') <
               length (filter Not active) + card (reloc_names objs - needed)"
    and "resolve_loop objs needed active =
           (if c then resolve_loop objs needed' active' else (needed', active'))"
proof -
  obtain a1 c1 where a: "activate_objects needed objs active False = (a1, c1)"
    by (cases "activate_objects needed objs active False")
  obtain n1 c2 where n: "collect_needs objs a1 needed c1 = (n1, c2)"
    by (cases "collect_needs objs a1 needed c1")
  from resolve_pass_eq [OF a n] assms have e: "n1 = needed'" "a1 = active'" "c2 = c" by simp_all
  note la = activate_objects_inactive [OF a, unfolded e]
  note ln = collect_needs_grows [OF n, unfolded e]
  show "needed \<subseteq> needed'" "needed' \<subseteq> needed \<union> reloc_names objs" using ln by simp_all
  show "resolve_loop objs needed active =
           (if c then resolve_loop objs needed' active' else (needed', active'))"
    using resolve_loop_unfold [OF a n] e by simp
  have fin: "finite (reloc_names objs - needed)"
    using finite_reloc_names by simp
  have sub: "reloc_names objs - needed' \<subseteq> reloc_names objs - needed"
    using ln by auto
  show "length (filter Not active') + card (reloc_names objs - needed') <
               length (filter Not active) + card (reloc_names objs - needed)" if c
  proof (cases c1)
    case True
    with la have "length (filter Not active') < length (filter Not active)" by simp
    moreover have "card (reloc_names objs - needed') \<le> card (reloc_names objs - needed)"
      by (rule card_mono [OF fin sub])
    ultimately show ?thesis by simp
  next
    case False
    with ln \<open>c\<close> have "needed' \<noteq> needed" by simp
    with ln have "reloc_names objs - needed' \<subset> reloc_names objs - needed" by auto
    then have "card (reloc_names objs - needed') < card (reloc_names objs - needed)"
      by (rule psubset_card_mono [OF fin])
    with la show ?thesis by simp
  qed
qed

lemma resolve_pass_flags:
  assumes "resolve_pass objs (needed, active) = ((needed', active'), c)"
    and "length active = length objs"
  shows "length active' = length objs" and "\<forall>i < length objs. active ! i \<longrightarrow> active' ! i"
proof -
  obtain a1 c1 where a: "activate_objects needed objs active False = (a1, c1)"
    by (cases "activate_objects needed objs active False")
  obtain n1 c2 where n: "collect_needs objs a1 needed c1 = (n1, c2)"
    by (cases "collect_needs objs a1 needed c1")
  from resolve_pass_eq [OF a n] assms have e: "a1 = active'" by simp
  from activate_objects_flags [OF assms(2) a] e
  have act: "active' = map (\<lambda>(obj, a). a \<or> provides_needed needed (symbols obj)) (zip objs active)"
    by simp
  show "length active' = length objs" using assms(2) by (simp add: act)
  show "\<forall>i < length objs. active ! i \<longrightarrow> active' ! i" using assms(2) by (simp add: act)
qed

lemma resolve_loop_iterations:
  "\<exists>n \<le> length (filter Not active) + card (reloc_names objs - needed).
     \<not> snd (resolve_pass objs (((\<lambda>st. fst (resolve_pass objs st)) ^^ n) (needed, active))) \<and>
     (\<forall>m < n. snd (resolve_pass objs (((\<lambda>st. fst (resolve_pass objs st)) ^^ m) (needed, active)))) \<and>
     resolve_loop objs needed active =
       fst (resolve_pass objs (((\<lambda>st. fst (resolve_pass objs st)) ^^ n) (needed, active)))"
proof (induction objs needed active rule: resolve_loop.induct)
  case (1 objs needed active)
  let ?it = "\<lambda>st. fst (resolve_pass objs st)"
  obtain active' c1 where a: "activate_objects needed objs active False = (active', c1)"
    by (cases "activate_objects needed objs active False")
  obtain needed' c2 where n: "collect_needs objs active' needed c1 = (needed', c2)"
    by (cases "collect_needs objs active' needed c1")
  note p = resolve_pass_eq [OF a n]
  note m = resolve_pass_measure [OF p]
  show ?case
  proof (cases c2)
    case False
    have "\<not> snd (resolve_pass objs ((?it ^^ 0) (needed, active)))" using p False by simp
    moreover have "resolve_loop objs needed active = fst (resolve_pass objs ((?it ^^ 0) (needed, active)))"
      using m(4) p False by simp
    ultimately show ?thesis by (intro exI [of _ 0]) simp
  next
    case True
    from "1.IH" [OF a [symmetric] refl n [symmetric] refl True]
    obtain k where k: "k \<le> length (filter Not active') + card (reloc_names objs - needed')"
      and stop: "\<not> snd (resolve_pass objs ((?it ^^ k) (needed', active')))"
      and run: "\<forall>j < k. snd (resolve_pass objs ((?it ^^ j) (needed', active')))"
      and res: "resolve_loop objs needed' active' = fst (resolve_pass objs ((?it ^^ k) (needed', active')))"
      by blast
    have shift: "\<And>j. (?it ^^ Suc j) (needed, active) = (?it ^^ j) (needed', active')"
    proof -
      fix j
      have "(?it ^^ Suc j) (needed, active) = (?it ^^ j) (?it (needed, active))"
        by (simp only: funpow_Suc_right o_apply)
      also have "?it (needed, active) = (needed', active')" using p by simp
      finally show "(?it ^^ Suc j) (needed, active) = (?it ^^ j) (needed', active')" .
    qed
    have "Suc k \<le> length (filter Not active) + card (reloc_names objs - needed)"
      using k m(3) [OF True] by simp
    moreover have "\<not> snd (resolve_pass objs ((?it ^^ Suc k) (needed, active)))"
      unfolding shift by (rule stop)
    moreover have "\<forall>j < Suc k. snd (resolve_pass objs ((?it ^^ j) (needed, active)))"
    proof (intro allI impI)
      fix j assume "j < Suc k"
      show "snd (resolve_pass objs ((?it ^^ j) (needed, active)))"
      proof (cases j)
        case 0
        then show ?thesis using p True by simp
      next
        case (Suc j')
        with \<open>j < Suc k\<close> run have "snd (resolve_pass objs ((?it ^^ j') (needed', active')))" by simp
        then show ?thesis unfolding Suc shift .
      qed
    qed
    moreover have "resolve_loop objs needed active =
        fst (resolve_pass objs ((?it ^^ Suc k) (needed, active)))"
      unfolding shift using m(4) True res by simp
    ultimately show ?thesis by blast
  qed
qed

lemma resolve_state_invariant:
  "fst (resolve_state objs n) \<subseteq> insert ''__START__'' (reloc_names objs) \<and>
   length (snd (resolve_state objs n)) = length objs"
proof (induction n)
  case 0
  show ?case by (simp add: resolve_state_def)
next
  case (Suc n)
  obtain nd ac where s: "resolve_state objs n = (nd, ac)" by (cases "resolve_state objs n")
  obtain nd' ac' c where p: "resolve_pass objs (nd, ac) = ((nd', ac'), c)"
    by (cases "resolve_pass objs (nd, ac)") auto
  have nx: "resolve_state objs (Suc n) = (nd', ac')"
    using s p by (simp add: resolve_state_def)
  from Suc s have "nd \<subseteq> insert ''__START__'' (reloc_names objs)" "length ac = length objs" by simp_all
  with resolve_pass_measure(2) [OF p] resolve_pass_flags(1) [OF p] show ?case
    unfolding nx by auto
qed

lemma resolve_state_grows:
  "fst (resolve_state objs n) \<subseteq> fst (resolve_state objs (Suc n)) \<and>
   (\<forall>i < length objs. snd (resolve_state objs n) ! i \<longrightarrow> snd (resolve_state objs (Suc n)) ! i)"
proof -
  obtain nd ac where s: "resolve_state objs n = (nd, ac)" by (cases "resolve_state objs n")
  obtain nd' ac' c where p: "resolve_pass objs (nd, ac) = ((nd', ac'), c)"
    by (cases "resolve_pass objs (nd, ac)") auto
  have nx: "resolve_state objs (Suc n) = (nd', ac')"
    using s p by (simp add: resolve_state_def)
  have "length ac = length objs" using resolve_state_invariant [of objs n] s by simp
  with resolve_pass_measure(1) [OF p] resolve_pass_flags(2) [OF p] show ?thesis
    unfolding nx s by simp
qed

section \<open>Facts about layout and symbol definition\<close>

lemma fold_add_sum_list:
  "fold (\<lambda>x (t :: u32). t + f x) xs a = a + sum_list (map f xs)"
  by (induction xs arbitrary: a) (simp_all add: add.assoc)

lemma total_text_sum: "total_text objs = sum_list (map (\<lambda>obj. text_size (header obj)) objs)"
  by (simp add: total_text_def fold_add_sum_list)

lemma total_data_sum: "total_data objs = sum_list (map (\<lambda>obj. data_size (header obj)) objs)"
  by (simp add: total_data_def fold_add_sum_list)

lemma layout_objects_bases:
  "layout_objects needed objs ct cd gst = Inr (objs', gst') \<Longrightarrow>
     length objs' = length objs \<and>
     (\<forall>i < length objs. objs' ! i = (objs ! i)
        \<lparr>text_base_addr := ct + sum_list (map (\<lambda>obj. text_size (header obj)) (take i objs)),
         data_base_addr := cd + sum_list (map (\<lambda>obj. data_size (header obj)) (take i objs))\<rparr>)"
proof (induction objs arbitrary: ct cd gst objs')
  case Nil
  then show ?case by simp
next
  case (Cons obj objs)
  let ?obj' = "obj\<lparr>text_base_addr := ct, data_base_addr := cd\<rparr>"
  from Cons.prems obtain g1 rest where
    d: "define_symbols needed ?obj' (symbols ?obj') gst = Inr g1" and
    l: "layout_objects needed objs (ct + text_size (header obj)) (cd + data_size (header obj)) g1 =
          Inr (rest, gst')" and
    e: "objs' = ?obj' # rest"
    by (auto simp: Let_def split: sum.splits)
  note ih = Cons.IH [OF l]
  have "\<forall>i < length (obj # objs). objs' ! i = ((obj # objs) ! i)
        \<lparr>text_base_addr := ct + sum_list (map (\<lambda>obj. text_size (header obj)) (take i (obj # objs))),
         data_base_addr := cd + sum_list (map (\<lambda>obj. data_size (header obj)) (take i (obj # objs)))\<rparr>"
  proof (intro allI impI)
    fix i assume i: "i < length (obj # objs)"
    show "objs' ! i = ((obj # objs) ! i)
        \<lparr>text_base_addr := ct + sum_list (map (\<lambda>obj. text_size (header obj)) (take i (obj # objs))),
         data_base_addr := cd + sum_list (map (\<lambda>obj. data_size (header obj)) (take i (obj # objs)))\<rparr>"
    proof (cases i)
      case 0
      then show ?thesis by (simp add: e)
    next
      case (Suc j)
      with i have "j < length objs" by simp
      with ih have "rest ! j = (objs ! j)
        \<lparr>text_base_addr := ct + text_size (header obj) + sum_list (map (\<lambda>obj. text_size (header obj)) (take j objs)),
         data_base_addr := cd + data_size (header obj) + sum_list (map (\<lambda>obj. data_size (header obj)) (take j objs))\<rparr>"
        by simp
      then show ?thesis by (simp add: e Suc add.assoc)
    qed
  qed
  with ih e show ?case by simp
qed

lemma unat_sum_list:
  "sum_list (map (\<lambda>x. unat (f x)) xs) < 2 ^ 32 \<Longrightarrow>
     unat (sum_list (map f xs) :: u32) = sum_list (map (\<lambda>x. unat (f x)) xs)"
proof (induction xs)
  case Nil
  show ?case by simp
next
  case (Cons x xs)
  then have "sum_list (map (\<lambda>x. unat (f x)) xs) < 2 ^ 32" by simp
  with Cons.IH have ih: "unat (sum_list (map f xs)) = sum_list (map (\<lambda>x. unat (f x)) xs)" by simp
  have "unat (f x + sum_list (map f xs)) = unat (f x) + unat (sum_list (map f xs))"
    using Cons.prems ih by (intro unat_add_lem [THEN iffD1]) simp
  with ih show ?case by simp
qed

lemma sum_list_take_le:
  "sum_list (map f (take i xs)) \<le> (sum_list (map f xs) :: nat)"
proof -
  have "sum_list (map f xs) = sum_list (map f (take i xs)) + sum_list (map f (drop i xs))"
    by (metis append_take_drop_id map_append sum_list_append)
  then show ?thesis by simp
qed


lemma set_defined_names:
  "set (defined_names needed syms) =
     {sym_name s | s. s \<in> set syms \<and> sym_type s = SYMBOL_DEFINED \<and> sym_name s \<in> needed}"
  by (auto simp: defined_names_def)

lemma define_symbols_Inr:
  "dom gst = set prev \<Longrightarrow> distinct prev \<Longrightarrow> define_symbols needed obj syms gst = Inr g \<Longrightarrow>
     distinct (prev @ defined_names needed syms) \<and> dom g = set (prev @ defined_names needed syms)"
proof (induction syms arbitrary: gst prev)
  case Nil
  then show ?case by (simp add: defined_names_def)
next
  case (Cons s syms)
  show ?case
  proof (cases "sym_type s = SYMBOL_DEFINED \<and> sym_name s \<in> needed")
    case False
    with Cons.prems(3) have "define_symbols needed obj syms gst = Inr g" by auto
    from Cons.IH [OF Cons.prems(1,2) this] False show ?thesis
      by (auto simp: defined_names_def)
  next
    case True
    with Cons.prems(3) have fresh: "gst (sym_name s) = None"
      and r: "define_symbols needed obj syms (gst(sym_name s \<mapsto> symbol_address obj s)) = Inr g"
      by (auto split: if_splits)
    have d: "dom (gst(sym_name s \<mapsto> symbol_address obj s)) = set (prev @ [sym_name s])"
      using Cons.prems(1) by auto
    have "sym_name s \<notin> dom gst" using fresh by (simp add: domIff)
    then have "sym_name s \<notin> set prev" unfolding Cons.prems(1) .
    with Cons.prems(2) have "distinct (prev @ [sym_name s])" by simp
    from Cons.IH [OF d this r] True show ?thesis
      by (simp add: defined_names_def)
  qed
qed

lemma define_symbols_Inl:
  "dom gst = set prev \<Longrightarrow> define_symbols needed obj syms gst = Inl e \<Longrightarrow>
     \<exists>n. e = DuplicateSymbol n \<and> 1 < count_list (prev @ defined_names needed syms) n"
proof (induction syms arbitrary: gst prev)
  case Nil
  then show ?case by simp
next
  case (Cons s syms)
  show ?case
  proof (cases "sym_type s = SYMBOL_DEFINED \<and> sym_name s \<in> needed")
    case False
    with Cons.prems(2) have "define_symbols needed obj syms gst = Inl e" by auto
    from Cons.IH [OF Cons.prems(1) this] False show ?thesis
      by (auto simp: defined_names_def)
  next
    case True
    show ?thesis
    proof (cases "gst (sym_name s) = None")
      case False
      with True Cons.prems(2) have e: "e = DuplicateSymbol (sym_name s)" by auto
      from False Cons.prems(1) have "sym_name s \<in> set prev" by (auto simp: dom_def)
      then have "count_list prev (sym_name s) \<noteq> 0" by (simp add: count_list_0_iff)
      then have "0 < count_list prev (sym_name s)" by simp
      with True e show ?thesis by (simp add: defined_names_def)
    next
      case fresh: True
      with True Cons.prems(2)
      have r: "define_symbols needed obj syms (gst(sym_name s \<mapsto> symbol_address obj s)) = Inl e"
        by auto
      have d: "dom (gst(sym_name s \<mapsto> symbol_address obj s)) = set (prev @ [sym_name s])"
        using Cons.prems(1) by auto
      from Cons.IH [OF d r] True show ?thesis
        by (simp add: defined_names_def)
    qed
  qed
qed

lemma registered_names_Cons:
  "registered_names needed (obj # objs) =
     defined_names needed (symbols obj) @ registered_names needed objs"
  by (simp add: registered_names_def)

lemma layout_objects_Inr:
  "dom gst = set prev \<Longrightarrow> distinct prev \<Longrightarrow>
   layout_objects needed objs ct cd gst = Inr (objs', g) \<Longrightarrow>
     distinct (prev @ registered_names needed objs) \<and>
     dom g = set (prev @ registered_names needed objs)"
proof (induction objs arbitrary: gst prev ct cd objs')
  case Nil
  then show ?case by (simp add: registered_names_def)
next
  case (Cons obj objs)
  let ?obj' = "obj\<lparr>text_base_addr := ct, data_base_addr := cd\<rparr>"
  from Cons.prems(3) obtain g1 rest where
    d: "define_symbols needed ?obj' (symbols obj) gst = Inr g1" and
    l: "layout_objects needed objs (ct + text_size (header obj)) (cd + data_size (header obj)) g1 =
          Inr (rest, g)"
    by (auto simp: Let_def split: sum.splits)
  from define_symbols_Inr [OF Cons.prems(1,2) d]
  have d1: "distinct (prev @ defined_names needed (symbols obj))"
    and d2: "dom g1 = set (prev @ defined_names needed (symbols obj))" by simp_all
  from Cons.IH [OF d2 d1 l] show ?case
    by (simp add: registered_names_Cons)
qed

lemma layout_objects_Inl:
  "dom gst = set prev \<Longrightarrow> distinct prev \<Longrightarrow>
   layout_objects needed objs ct cd gst = Inl e \<Longrightarrow>
     \<exists>n. e = DuplicateSymbol n \<and> 1 < count_list (prev @ registered_names needed objs) n"
proof (induction objs arbitrary: gst prev ct cd)
  case Nil
  then show ?case by simp
next
  case (Cons obj objs)
  let ?obj' = "obj\<lparr>text_base_addr := ct, data_base_addr := cd\<rparr>"
  show ?case
  proof (cases "define_symbols needed ?obj' (symbols obj) gst")
    case (Inl e1)
    with Cons.prems(3) have "e1 = e" by (simp add: Let_def)
    with define_symbols_Inl [OF Cons.prems(1) Inl] show ?thesis
      by (auto simp: registered_names_Cons)
  next
    case (Inr g1)
    with Cons.prems(3)
    have l: "layout_objects needed objs (ct + text_size (header obj)) (cd + data_size (header obj)) g1 =
          Inl e"
      by (auto simp: Let_def split: sum.splits)
    from define_symbols_Inr [OF Cons.prems(1,2) Inr]
    have d1: "distinct (prev @ defined_names needed (symbols obj))"
      and d2: "dom g1 = set (prev @ defined_names needed (symbols obj))" by simp_all
    from Cons.IH [OF d2 d1 l] show ?thesis
      by (simp add: registered_names_Cons)
  qed
qed

lemma concat_shared_not_distinct:
  assumes "i < j" "j < length xss" "x \<in> set (xss ! i)" "x \<in> set (xss ! j)"
  shows "\<not> distinct (concat xss)"
proof -
  have "xss = take j xss @ xss ! j # drop (Suc j) xss"
    using assms(2) by (rule id_take_nth_drop)
  then have c: "concat xss = concat (take j xss) @ xss ! j @ concat (drop (Suc j) xss)"
    by (metis concat.simps(2) concat_append)
  have "xss ! i \<in> set (take j xss)"
    using assms(1,2) by (auto simp: in_set_conv_nth intro!: exI [of _ i])
  with assms(3) have "x \<in> set (concat (take j xss))" by auto
  with assms(4) show ?thesis unfolding c by auto
qed

lemma verify_needed_Inr: "verify_needed ns gst = Inr u \<longleftrightarrow> set ns \<subseteq> dom gst"
  by (induction ns) (auto simp: dom_def)

lemma verify_needed_Inl:
  "sorted ns \<Longrightarrow> verify_needed ns gst = Inl e \<Longrightarrow>
     \<exists>m. e = UndefinedSymbol m \<and> m \<in> set ns \<and> gst m = None \<and>
         (\<forall>k \<in> set ns. gst k = None \<longrightarrow> m \<le> k)"
proof (induction ns)
  case Nil
  then show ?case by simp
next
  case (Cons n ns)
  show ?case
  proof (cases "gst n = None")
    case True
    with Cons.prems have "e = UndefinedSymbol n" by simp
    with True Cons.prems(1) show ?thesis by auto
  next
    case False
    with Cons.prems have "sorted ns" "verify_needed ns gst = Inl e" by simp_all
    from Cons.IH [OF this] False show ?thesis by auto
  qed
qed

lemma reachable_names_bounded: "reachable_names objs \<subseteq> insert ''__START__'' (reloc_names objs)"
proof
  fix x assume "x \<in> reachable_names objs"
  then show "x \<in> insert ''__START__'' (reloc_names objs)"
    by (induction rule: reachable_names.induct) (auto simp: reloc_names_def)
qed

lemma finite_needed: "resolve objs = (needed, active) \<Longrightarrow> finite needed"
proof -
  assume "resolve objs = (needed, active)"
  with resolve_characterisation [of objs] have "needed = reachable_names objs" by simp
  with reachable_names_bounded [of objs] finite_reloc_names [of objs] show ?thesis
    by (auto intro: finite_subset)
qed

lemma layout_and_define_symbols_Inr:
  assumes "layout_and_define_symbols objs gst0 = Inr (objs', gst, tt, td)"
  obtains needed active where
    "resolve objs = (needed, active)"
    "layout_objects needed (active_objects objs active) 0 (total_text (active_objects objs active)) gst0 =
       Inr (objs', gst)"
    "verify_needed (sorted_list_of_set needed) gst = Inr ()"
    "tt = total_text (active_objects objs active)"
    "td = total_data (active_objects objs active)"
proof -
  obtain needed active where r: "resolve objs = (needed, active)" by (cases "resolve objs")
  from assms show ?thesis
    unfolding layout_and_define_symbols_def r
    by (auto simp: Let_def split: sum.splits intro!: that [OF r])
qed

lemma registered_names_needed: "set (registered_names needed objs) \<subseteq> needed"
  by (auto simp: registered_names_def set_defined_names)

lemma layout_and_define_symbols_cases:
  assumes "resolve objs = (needed, active)"
  shows "layout_and_define_symbols objs gst0 =
    (case layout_objects needed (active_objects objs active) 0
            (total_text (active_objects objs active)) gst0 of
       Inl e \<Rightarrow> Inl e
     | Inr (objs', gst) \<Rightarrow>
         (case verify_needed (sorted_list_of_set needed) gst of
            Inl e \<Rightarrow> Inl e
          | Inr u \<Rightarrow> Inr (objs', gst, total_text (active_objects objs active),
                        total_data (active_objects objs active))))"
  unfolding layout_and_define_symbols_def assms by (simp add: Let_def)

lemma link_objects_layout_error:
  "load_objects fs input_files = Inr objs \<Longrightarrow>
   layout_and_define_symbols objs Map.empty = Inl e \<Longrightarrow>
   link_objects fs input_files output_path = (Inl e, fs)"
  by (simp add: link_objects_def)

section \<open>Facts about the output\<close>

lemma fold_append_sections:
  "fold (\<lambda>obj out. if f obj \<noteq> [] then out @ f obj else out) objs acc =
     acc @ concat (map f objs)"
  by (induction objs arbitrary: acc) simp_all

lemma write_output_concat:
  "write_output fs output_path objs tt td =
     (if writable fs output_path
      then (Inr (tt, td),
            fs\<lparr>files := (files fs)(output_path \<mapsto>
                 concat (map text_section objs) @ concat (map data_section objs))\<rparr>)
      else (Inl (OutputWriteError output_path), fs))"
  by (simp add: write_output_def fold_append_sections Let_def)

lemma link_objects_failure_keeps_files:
  "link_objects fs input_files output_path = (Inl e, fs') \<Longrightarrow> fs' = fs"
  by (auto simp: link_objects_def write_output_concat split: sum.splits prod.splits if_splits)

lemma verify_needed_missing:
  assumes "finite needed" and "n \<in> needed" and "gst n = None"
  shows "\<exists>m. m \<in> needed \<and> gst m = None \<and> (\<forall>k \<in> needed. gst k = None \<longrightarrow> m \<le> k) \<and>
             verify_needed (sorted_list_of_set needed) gst = Inl (UndefinedSymbol m)"
proof (cases "verify_needed (sorted_list_of_set needed) gst")
  case (Inr u)
  then have "set (sorted_list_of_set needed) \<subseteq> dom gst" by (simp add: verify_needed_Inr)
  with assms show ?thesis by (auto simp: dom_def)
next
  case (Inl e)
  from verify_needed_Inl [OF _ Inl] assms(1) Inl show ?thesis by auto
qed

lemma reachable_names_no_entry:
  assumes "\<forall>obj \<in> set objs. \<not> exports obj ''__START__''"
  shows "reachable_names objs = {''__START__''}"
proof -
  have "x = ''__START__''" if "x \<in> reachable_names objs" for x
    using that assms by (induction rule: reachable_names.induct) auto
  then show ?thesis by (auto intro: reachable_names.entry)
qed


section \<open>Facts about the loader\<close>

lemma length_split_records: "length (split_records sz n bs) = n"
  by (induction n arbitrary: bs) simp_all

lemma split_records_zero:
  "split_records sz n (replicate (n * sz) 0) = replicate n (replicate sz 0)"
proof (induction n)
  case 0
  show ?case by simp
next
  case (Suc n)
  have "replicate (Suc n * sz) (0::u8) = replicate sz 0 @ replicate (n * sz) 0"
    by (simp add: replicate_add)
  with Suc show ?case by simp
qed

lemma read_section_good:
  "\<not> failbit s \<Longrightarrow> read_section s n =
     (take n (unread s) @ replicate (n - length (unread s)) 0,
      \<lparr>unread = drop n (unread s), failbit = (length (unread s) < n)\<rparr>)"
  by (cases s) (auto simp: read_section_def stream_read_def min_def)

lemma read_section_failed:
  "failbit s \<Longrightarrow> read_section s n = (replicate n 0, s)"
  by (simp add: read_section_def stream_read_def)


lemma failbit_read_section: "failbit s \<Longrightarrow> failbit (snd (read_section s n))"
  by (simp add: read_section_failed)


lemma length_zero_padded: "length (zero_padded n bs) = n"
  by (simp add: zero_padded_def)

lemma read_section_at:
  "read_section \<lparr>unread = drop m rest, failbit = (length rest < m)\<rparr> n =
     (zero_padded n (drop m rest),
      \<lparr>unread = drop (m + n) rest, failbit = (length rest < m + n)\<rparr>)"
proof (cases "length rest < m")
  case True
  then show ?thesis
    by (simp add: read_section_failed zero_padded_def)
next
  case False
  then have "(length rest - m < n) = (length rest < m + n)" by auto
  with False show ?thesis
    by (simp add: read_section_good zero_padded_def add.commute)
qed






lemma load_object_file_padded:
  assumes "files fs path = Some contents"
    and "20 \<le> length contents"
    and "load32 contents 0 = LINKER_MAGIC"
    and "hdr = decode_header (take 20 contents)"
    and "rest = drop 20 contents"
    and "n = unat (text_size hdr)" and "d = unat (data_size hdr)"
    and "sc = unat (symtable_count hdr)" and "rc = unat (reloc_count hdr)"
  shows "load_object_file fs path =
     (if n + d + sc * 76 + rc * 72 \<le> free_memory fs
      then Inr \<lparr>filename = path, header = hdr,
           text_section = zero_padded n rest,
           data_section = zero_padded d (drop n rest),
           symbols = map decode_symbol
                       (split_records 76 sc (zero_padded (sc * 76) (drop (n + d) rest))),
           relocs = map decode_reloc
                       (split_records 72 rc (zero_padded (rc * 72) (drop (n + d + sc * 76) rest))),
           text_base_addr = 0, data_base_addr = 0\<rparr>
      else Inl (BadAlloc path))"
proof -
  have s0: "\<lparr>unread = drop 20 contents, failbit = False\<rparr> =
            \<lparr>unread = drop 0 rest, failbit = (length rest < 0)\<rparr>"
    using assms(5) by simp
  have m: "(n + d + sc * 76 + rc * 72 \<le> free_memory fs) =
     (\<not> free_memory fs < n \<and> \<not> free_memory fs - n < d \<and>
      \<not> free_memory fs - n - d < sc * 76 \<and> \<not> free_memory fs - n - d - sc * 76 < rc * 72)"
    by auto
  show ?thesis
    unfolding load_object_file_def assms(1) option.case Let_def s0
      assms(4) [symmetric] assms(6-9) [symmetric] read_section_at prod.case m
    using assms(2,3) by simp
qed

lemma zero_padded_append: "zero_padded (length xs) (xs @ ys) = xs"
  by (simp add: zero_padded_def)

lemma zero_padded_exact: "zero_padded (length xs) xs = xs"
  by (simp add: zero_padded_def)

lemma load32_bytes_of_word: "load32 (pre @ bytes_of_word w @ post) (length pre) = w"
  by (simp add: load32_def length_bytes_of_word word_of_bytes_of_word)

lemma split_records_concat:
  "\<forall>x \<in> set xs. length (f x) = sz \<Longrightarrow>
     split_records sz (length xs) (concat (map f xs)) = map f xs"
  by (induction xs) simp_all

lemma length_concat_records:
  "\<forall>x \<in> set xs. length (f x) = sz \<Longrightarrow> length (concat (map f xs)) = length xs * sz"
  by (induction xs) simp_all

lemma unat_of_nat_u32: "n < 2 ^ 32 \<Longrightarrow> unat (of_nat n :: u32) = n"
  by (simp add: unat_of_nat)

lemma decode_header_object_file:
  "decode_header (take 20 (object_file t d ss rs)) =
     \<lparr>magic = LINKER_MAGIC, text_size = of_nat (length t), data_size = of_nat (length d),
      symtable_count = of_nat (length ss), reloc_count = of_nat (length rs)\<rparr>"
proof -
  let ?a = "bytes_of_word LINKER_MAGIC" and ?b = "bytes_of_word (of_nat (length t) :: u32)"
  let ?c = "bytes_of_word (of_nat (length d) :: u32)" and ?d = "bytes_of_word (of_nat (length ss) :: u32)"
  let ?e = "bytes_of_word (of_nat (length rs) :: u32)"
  have t: "take 20 (object_file t d ss rs) = ?a @ ?b @ ?c @ ?d @ ?e"
    by (simp add: object_file_def length_bytes_of_word)
  have "load32 ([] @ ?a @ (?b @ ?c @ ?d @ ?e)) (length ([] :: u8 list)) = LINKER_MAGIC"
       "load32 (?a @ ?b @ (?c @ ?d @ ?e)) (length ?a) = of_nat (length t)"
       "load32 ((?a @ ?b) @ ?c @ (?d @ ?e)) (length (?a @ ?b)) = of_nat (length d)"
       "load32 ((?a @ ?b @ ?c) @ ?d @ ?e) (length (?a @ ?b @ ?c)) = of_nat (length ss)"
       "load32 ((?a @ ?b @ ?c @ ?d) @ ?e @ []) (length (?a @ ?b @ ?c @ ?d)) = of_nat (length rs)"
    by (rule load32_bytes_of_word)+
  then show ?thesis
    unfolding t by (simp add: decode_header_def length_bytes_of_word)
qed

lemma load_object_file_of:
  assumes f: "files fs path = Some (object_file t d ss rs)"
    and lt: "length t < 2 ^ 32" and ld: "length d < 2 ^ 32"
    and ls: "length ss < 2 ^ 32" and lr: "length rs < 2 ^ 32"
    and es: "\<forall>s \<in> set ss. length (encode_symbol s) = 76 \<and> decode_symbol (encode_symbol s) = s"
    and er: "\<forall>r \<in> set rs. length (encode_reloc r) = 72 \<and> decode_reloc (encode_reloc r) = r"
    and mem: "length t + length d + length ss * 76 + length rs * 72 \<le> free_memory fs"
  shows "load_object_file fs path = Inr (loaded path t d ss rs)"
proof -
  let ?S = "concat (map encode_symbol ss)" and ?R = "concat (map encode_reloc rs)"
  let ?H = "bytes_of_word LINKER_MAGIC @ bytes_of_word (of_nat (length t) :: u32) @
     bytes_of_word (of_nat (length d) :: u32) @ bytes_of_word (of_nat (length ss) :: u32) @
     bytes_of_word (of_nat (length rs) :: u32)"
  let ?hdr = "\<lparr>magic = LINKER_MAGIC, text_size = of_nat (length t), data_size = of_nat (length d),
      symtable_count = of_nat (length ss), reloc_count = of_nat (length rs)\<rparr>"
  have c: "object_file t d ss rs = ?H @ t @ d @ ?S @ ?R"
    by (simp add: object_file_def)
  have lh: "length ?H = 20" by (simp add: length_bytes_of_word)
  have l20: "20 \<le> length (object_file t d ss rs)" unfolding c using lh by simp
  have m: "load32 (object_file t d ss rs) 0 = LINKER_MAGIC"
    using load32_bytes_of_word [of "[]" LINKER_MAGIC] by (simp add: object_file_def)
  have h: "?hdr = decode_header (take 20 (object_file t d ss rs))"
    by (simp add: decode_header_object_file)
  have rest: "t @ d @ ?S @ ?R = drop 20 (object_file t d ss rs)"
    unfolding c using lh by simp
  have lS: "length ?S = length ss * 76" using es by (intro length_concat_records) simp
  have lR: "length ?R = length rs * 72" using er by (intro length_concat_records) simp
  have n: "length t = unat (text_size ?hdr)" "length d = unat (data_size ?hdr)"
    "length ss = unat (symtable_count ?hdr)" "length rs = unat (reloc_count ?hdr)"
    using lt ld ls lr by (simp_all add: unat_of_nat_u32)
  note p = load_object_file_padded [OF f l20 m h rest n]
  have z1: "zero_padded (length t) (t @ d @ ?S @ ?R) = t" by (rule zero_padded_append)
  have z2: "zero_padded (length d) (drop (length t) (t @ d @ ?S @ ?R)) = d"
    by (simp add: zero_padded_append)
  have z3: "zero_padded (length ss * 76) (drop (length t + length d) (t @ d @ ?S @ ?R)) = ?S"
    using zero_padded_append [of ?S ?R] by (simp add: lS)
  have z4: "zero_padded (length rs * 72) (drop (length t + length d + length ss * 76) (t @ d @ ?S @ ?R)) = ?R"
    using zero_padded_exact [of ?R] by (simp add: lS lR)
  have s: "map decode_symbol (split_records 76 (length ss) ?S) = ss"
    using es by (simp add: split_records_concat map_idI)
  have r: "map decode_reloc (split_records 72 (length rs) ?R) = rs"
    using er by (simp add: split_records_concat map_idI)
  show ?thesis
    unfolding p z1 z2 z3 z4 s r using mem by (simp add: loaded_def)
qed

lemma file_of_loaded: "file_of (loaded path t d ss rs) = object_file t d ss rs"
  by (simp add: file_of_def loaded_def)

lemma length_zeros31: "length zeros31 = 2147483648"
  by (simp add: zeros31_def)

lemma object_memory_loaded:
  "object_memory (loaded path t d ss rs) = length t + length d + length ss * 76 + length rs * 72"
  by (simp add: object_memory_def loaded_def)

section \<open>The concrete modules: loading, layout, relocation\<close>

lemma relocate_ab: "apply_relocations [laid_a, laid_b] gst_ab = Inr [patched_a, laid_b]"
  by (simp add: input_defs apply_reloc_def load32_def store32_def word_of_bytes_def bytes_of_word_def)

lemma resolve_cab:
  "resolve [obj_c, obj_a, obj_b] = ({''__START__'', ''helper''}, [False, True, True])"
  by (simp add: resolve_def input_defs insert_commute)

lemma layout_cab:
  "layout_and_define_symbols [obj_c, obj_a, obj_b] Map.empty =
     Inr ([laid_a, laid_b], gst_ab, 8, 3)"
  by (simp add: layout_and_define_symbols_def resolve_cab active_objects_def total_text_def
        total_data_def)
     (simp add: input_defs symbol_address_def)

lemma records_ok:
  "length (encode_symbol (exported ''__START__'' SECTION_TEXT 0)) = 76 \<and>
   decode_symbol (encode_symbol (exported ''__START__'' SECTION_TEXT 0)) = exported ''__START__'' SECTION_TEXT 0"
  "length (encode_symbol (exported ''helper'' SECTION_TEXT 0)) = 76 \<and>
   decode_symbol (encode_symbol (exported ''helper'' SECTION_TEXT 0)) = exported ''helper'' SECTION_TEXT 0"
  "length (encode_symbol (exported ''unused'' SECTION_TEXT 0)) = 76 \<and>
   decode_symbol (encode_symbol (exported ''unused'' SECTION_TEXT 0)) = exported ''unused'' SECTION_TEXT 0"
  "length (encode_symbol (exported ''x'' SECTION_TEXT 0)) = 76 \<and>
   decode_symbol (encode_symbol (exported ''x'' SECTION_TEXT 0)) = exported ''x'' SECTION_TEXT 0"
  "length (encode_symbol (exported ''y'' SECTION_TEXT 0)) = 76 \<and>
   decode_symbol (encode_symbol (exported ''y'' SECTION_TEXT 0)) = exported ''y'' SECTION_TEXT 0"
  "length (encode_symbol (imported ''helper'')) = 76 \<and>
   decode_symbol (encode_symbol (imported ''helper'')) = imported ''helper''"
  "length (encode_reloc (reloc 0 ''helper'' RELOC_RELATIVE)) = 72 \<and>
   decode_reloc (encode_reloc (reloc 0 ''helper'' RELOC_RELATIVE)) = reloc 0 ''helper'' RELOC_RELATIVE"
  "length (encode_reloc (reloc 0 ''x'' RELOC_ABSOLUTE)) = 72 \<and>
   decode_reloc (encode_reloc (reloc 0 ''x'' RELOC_ABSOLUTE)) = reloc 0 ''x'' RELOC_ABSOLUTE"
  "length (encode_reloc (reloc 4 ''y'' RELOC_ABSOLUTE)) = 72 \<and>
   decode_reloc (encode_reloc (reloc 4 ''y'' RELOC_ABSOLUTE)) = reloc 4 ''y'' RELOC_ABSOLUTE"
  "length (encode_symbol (exported ''shared'' SECTION_TEXT 0)) = 76 \<and>
   decode_symbol (encode_symbol (exported ''shared'' SECTION_TEXT 0)) = exported ''shared'' SECTION_TEXT 0"
  "length (encode_reloc (reloc 4 ''shared'' RELOC_ABSOLUTE)) = 72 \<and>
   decode_reloc (encode_reloc (reloc 4 ''shared'' RELOC_ABSOLUTE)) = reloc 4 ''shared'' RELOC_ABSOLUTE"
  "length (encode_reloc (reloc 0 ''missing'' RELOC_ABSOLUTE)) = 72 \<and>
   decode_reloc (encode_reloc (reloc 0 ''missing'' RELOC_ABSOLUTE)) = reloc 0 ''missing'' RELOC_ABSOLUTE"
  "length (encode_reloc (reloc 0xFFFFFFFC ''__START__'' RELOC_ABSOLUTE)) = 72 \<and>
   decode_reloc (encode_reloc (reloc 0xFFFFFFFC ''__START__'' RELOC_ABSOLUTE)) =
     reloc 0xFFFFFFFC ''__START__'' RELOC_ABSOLUTE"
  by code_simp+

lemma load_big:
  "load_objects fs_big [''s.obj'', ''x.obj'', ''y.obj''] = Inr [obj_s, obj_x, obj_y]"
proof -
  have s: "load_object_file fs_big ''s.obj'' = Inr obj_s"
    unfolding obj_s_def
    by (rule load_object_file_of) (simp_all add: fs_big_def obj_s_def file_of_loaded records_ok)
  have ms: "object_memory obj_s = 228"
    by (simp add: obj_s_def object_memory_loaded)
  have mx: "object_memory obj_x = 2147483724"
    by (simp add: obj_x_def object_memory_loaded length_zeros31)
  have x: "load_object_file (fs_big\<lparr>free_memory := 68719476508\<rparr>) ''x.obj'' = Inr obj_x"
    unfolding obj_x_def
    by (rule load_object_file_of)
       (simp_all add: fs_big_def obj_x_def file_of_loaded records_ok length_zeros31)
  have y: "load_object_file (fs_big\<lparr>free_memory := 66571992784\<rparr>) ''y.obj'' = Inr obj_y"
    unfolding obj_y_def
    by (rule load_object_file_of)
       (simp_all add: fs_big_def obj_y_def file_of_loaded records_ok length_zeros31)
  have f: "free_memory fs_big = 68719476736" by (simp add: fs_big_def)
  show ?thesis by (simp add: s ms f x mx y)
qed


lemma resolve_big:
  "resolve [obj_s, obj_x, obj_y] = ({''__START__'', ''x'', ''y''}, [True, True, True])"
  by (simp add: resolve_def input_defs insert_commute)

lemma layout_big:
  "layout_and_define_symbols [obj_s, obj_x, obj_y] Map.empty =
     Inr ([obj_s\<lparr>text_base_addr := 0, data_base_addr := 8\<rparr>,
           obj_x\<lparr>text_base_addr := 8, data_base_addr := 8\<rparr>,
           obj_y\<lparr>text_base_addr := 0x80000008, data_base_addr := 8\<rparr>],
          [''__START__'' \<mapsto> 0, ''x'' \<mapsto> 8, ''y'' \<mapsto> 0x80000008], 8, 0)"
  by (simp add: layout_and_define_symbols_def resolve_big active_objects_def total_text_def
        total_data_def)
     (simp add: input_defs symbol_address_def length_zeros31)

lemma relocate_big:
  "apply_relocations
     [obj_s\<lparr>text_base_addr := 0, data_base_addr := 8\<rparr>,
      obj_x\<lparr>text_base_addr := 8, data_base_addr := 8\<rparr>,
      obj_y\<lparr>text_base_addr := 0x80000008, data_base_addr := 8\<rparr>]
     [''__START__'' \<mapsto> 0, ''x'' \<mapsto> 8, ''y'' \<mapsto> 0x80000008] =
   Inr [obj_s\<lparr>text_base_addr := 0, data_base_addr := 8,
               text_section := [8, 0, 0, 0, 8, 0, 0, 0x80]\<rparr>,
        obj_x\<lparr>text_base_addr := 8, data_base_addr := 8\<rparr>,
        obj_y\<lparr>text_base_addr := 0x80000008, data_base_addr := 8\<rparr>]"
  by (simp add: input_defs apply_reloc_def load32_def store32_def word_of_bytes_def
        bytes_of_word_def)

lemma load_w: "load_objects fs_w [''w.obj''] = Inr [obj_w]"
proof -
  have "load_object_file fs_w ''w.obj'' = Inr obj_w"
    unfolding obj_w_def
    by (rule load_object_file_of) (simp_all add: fs_w_def file_w_def records_ok relocs_w_def)
  then show ?thesis by simp
qed

lemma load_e1d2: "load_objects fs_d [''e1.obj'', ''d2.obj''] = Inr [obj_e1, obj_d2]"
proof -
  have e: "load_object_file fs_d ''e1.obj'' = Inr obj_e1"
    unfolding obj_e1_def
    by (rule load_object_file_of)
       (simp_all add: fs_d_def obj_e1_def file_of_loaded records_ok syms_d1_def)
  have me: "object_memory obj_e1 = 380"
    by (simp add: obj_e1_def object_memory_loaded syms_d1_def)
  have d: "load_object_file (fs_d\<lparr>free_memory := 68719476356\<rparr>) ''d2.obj'' = Inr obj_d2"
    unfolding obj_d2_def
    by (rule load_object_file_of) (simp_all add: fs_d_def obj_d2_def file_of_loaded records_ok)
  have f: "free_memory fs_d = 68719476736" by (simp add: fs_d_def)
  show ?thesis by (simp add: e me f d)
qed

lemma load_d1d2: "load_objects fs_d [''d1.obj'', ''d2.obj''] = Inr [obj_d1, obj_d2]"
proof -
  have e: "load_object_file fs_d ''d1.obj'' = Inr obj_d1"
    unfolding obj_d1_def
    by (rule load_object_file_of)
       (simp_all add: fs_d_def obj_d1_def file_of_loaded records_ok syms_d1_def)
  have me: "object_memory obj_d1 = 304"
    by (simp add: obj_d1_def object_memory_loaded syms_d1_def)
  have d: "load_object_file (fs_d\<lparr>free_memory := 68719476432\<rparr>) ''d2.obj'' = Inr obj_d2"
    unfolding obj_d2_def
    by (rule load_object_file_of) (simp_all add: fs_d_def obj_d2_def file_of_loaded records_ok)
  have f: "free_memory fs_d = 68719476736" by (simp add: fs_d_def)
  show ?thesis by (simp add: e me f d)
qed

lemma load_u: "load_objects fs_u [''u.obj''] = Inr [obj_u]"
proof -
  have "load_object_file fs_u ''u.obj'' = Inr obj_u"
    unfolding obj_u_def
    by (rule load_object_file_of) (simp_all add: fs_u_def obj_u_def file_of_loaded records_ok)
  then show ?thesis by simp
qed

lemma load_c: "load_objects fs_u [''c.obj''] = Inr [obj_c]"
proof -
  have "load_object_file fs_u ''c.obj'' = Inr obj_c"
    unfolding obj_c_def
    by (rule load_object_file_of) (simp_all add: fs_u_def obj_c_def file_of_loaded records_ok)
  then show ?thesis by simp
qed

lemma load_t: "load_object_file fs_t ''t.obj'' = Inr obj_t"
proof -
  have f: "files fs_t ''t.obj'' = Some file_t" by (simp add: fs_t_def)
  have fm: "free_memory fs_t = 68719476736" by (simp add: fs_t_def)
  have l20: "20 \<le> length file_t" by code_simp
  have m: "load32 file_t 0 = LINKER_MAGIC" by code_simp
  have hd: "decode_header (take 20 file_t) =
      \<lparr>magic = LINKER_MAGIC, text_size = 4, data_size = 0, symtable_count = 0, reloc_count = 0\<rparr>"
    by code_simp
  have z: "zero_padded 4 (drop 20 file_t) = [0xAA, 0xBB, 0, 0]" by code_simp
  have z0: "zero_padded 0 bs = []" for bs :: "u8 list"
    by (simp add: zero_padded_def)
  note p = load_object_file_padded [OF f l20 m hd [symmetric] refl refl refl refl refl]
  show ?thesis
    unfolding p fm by (simp add: z z0 obj_t_def)
qed

section \<open>The relocation engine: what it writes and what it leaves alone\<close>

text \<open>
  Claim C10.  When \<open>apply_relocations\<close> succeeds it returns as many objects as it was
  given, and in each of them the file name, the header, the data bytes, the symbol table,
  the relocation table and both base addresses are what they were; the text section keeps
  its length, and every text byte that lies in no relocation's four-byte window
  \<open>[patch_offset, patch_offset + 4)\<close> keeps its value.
\<close>

theorem apply_relocations_frame:
  assumes "apply_relocations objs gst = Inr objs'"
  shows "length objs' = length objs \<and>
    (\<forall>k < length objs.
       filename (objs' ! k) = filename (objs ! k) \<and>
       header (objs' ! k) = header (objs ! k) \<and>
       data_section (objs' ! k) = data_section (objs ! k) \<and>
       symbols (objs' ! k) = symbols (objs ! k) \<and>
       relocs (objs' ! k) = relocs (objs ! k) \<and>
       text_base_addr (objs' ! k) = text_base_addr (objs ! k) \<and>
       data_base_addr (objs' ! k) = data_base_addr (objs ! k) \<and>
       length (text_section (objs' ! k)) = length (text_section (objs ! k)) \<and>
       (\<forall>b < length (text_section (objs ! k)).
          (\<forall>r \<in> set (relocs (objs ! k)).
             b < unat (reloc_offset r) \<or> unat (reloc_offset r) + 4 \<le> b) \<longrightarrow>
          text_section (objs' ! k) ! b = text_section (objs ! k) ! b))"
proof -
  note n = apply_relocations_nth [OF assms]
  have "\<And>k. k < length objs \<Longrightarrow>
       filename (objs' ! k) = filename (objs ! k) \<and>
       header (objs' ! k) = header (objs ! k) \<and>
       data_section (objs' ! k) = data_section (objs ! k) \<and>
       symbols (objs' ! k) = symbols (objs ! k) \<and>
       relocs (objs' ! k) = relocs (objs ! k) \<and>
       text_base_addr (objs' ! k) = text_base_addr (objs ! k) \<and>
       data_base_addr (objs' ! k) = data_base_addr (objs ! k) \<and>
       length (text_section (objs' ! k)) = length (text_section (objs ! k)) \<and>
       (\<forall>b < length (text_section (objs ! k)).
          (\<forall>r \<in> set (relocs (objs ! k)).
             b < unat (reloc_offset r) \<or> unat (reloc_offset r) + 4 \<le> b) \<longrightarrow>
          text_section (objs' ! k) ! b = text_section (objs ! k) ! b)"
  proof -
    fix k assume "k < length objs"
    with n have s: "apply_relocs gst (objs ! k) (relocs (objs ! k)) = Inr (objs' ! k)" by simp
    note f = apply_relocs_frame [OF s]
    from f have eq: "(objs' ! k)\<lparr>text_section := text_section (objs ! k)\<rparr> = objs ! k" by simp
    have "filename ((objs' ! k)\<lparr>text_section := text_section (objs ! k)\<rparr>) = filename (objs' ! k)"
         "header ((objs' ! k)\<lparr>text_section := text_section (objs ! k)\<rparr>) = header (objs' ! k)"
         "data_section ((objs' ! k)\<lparr>text_section := text_section (objs ! k)\<rparr>) = data_section (objs' ! k)"
         "symbols ((objs' ! k)\<lparr>text_section := text_section (objs ! k)\<rparr>) = symbols (objs' ! k)"
         "relocs ((objs' ! k)\<lparr>text_section := text_section (objs ! k)\<rparr>) = relocs (objs' ! k)"
         "text_base_addr ((objs' ! k)\<lparr>text_section := text_section (objs ! k)\<rparr>) = text_base_addr (objs' ! k)"
         "data_base_addr ((objs' ! k)\<lparr>text_section := text_section (objs ! k)\<rparr>) = data_base_addr (objs' ! k)"
      by simp_all
    then have fields:
         "filename (objs' ! k) = filename (objs ! k)"
         "header (objs' ! k) = header (objs ! k)"
         "data_section (objs' ! k) = data_section (objs ! k)"
         "symbols (objs' ! k) = symbols (objs ! k)"
         "relocs (objs' ! k) = relocs (objs ! k)"
         "text_base_addr (objs' ! k) = text_base_addr (objs ! k)"
         "data_base_addr (objs' ! k) = data_base_addr (objs ! k)"
      unfolding eq by simp_all
    from f fields show "filename (objs' ! k) = filename (objs ! k) \<and>
       header (objs' ! k) = header (objs ! k) \<and>
       data_section (objs' ! k) = data_section (objs ! k) \<and>
       symbols (objs' ! k) = symbols (objs ! k) \<and>
       relocs (objs' ! k) = relocs (objs ! k) \<and>
       text_base_addr (objs' ! k) = text_base_addr (objs ! k) \<and>
       data_base_addr (objs' ! k) = data_base_addr (objs ! k) \<and>
       length (text_section (objs' ! k)) = length (text_section (objs ! k)) \<and>
       (\<forall>b < length (text_section (objs ! k)).
          (\<forall>r \<in> set (relocs (objs ! k)).
             b < unat (reloc_offset r) \<or> unat (reloc_offset r) + 4 \<le> b) \<longrightarrow>
          text_section (objs' ! k) ! b = text_section (objs ! k) ! b)"
      by simp
  qed
  with n show ?thesis by blast
qed

text \<open>The frame property at modules A and B: only A's instruction word changes.\<close>

theorem apply_relocations_frame_witness:
  "apply_relocations [laid_a, laid_b] gst_ab = Inr [patched_a, laid_b] \<and>
   data_section patched_a = data_section laid_a \<and>
   symbols patched_a = symbols laid_a \<and>
   length (text_section patched_a) = 4"
proof -
  have e: "apply_relocations [laid_a, laid_b] gst_ab = Inr [patched_a, laid_b]"
    by (rule relocate_ab)
  have k: "0 < length [laid_a, laid_b]" by simp
  from apply_relocations_frame [OF e, THEN conjunct2, rule_format, OF k]
  have "data_section patched_a = data_section laid_a \<and>
        symbols patched_a = symbols laid_a \<and>
        length (text_section patched_a) = length (text_section laid_a)"
    by simp
  with e show ?thesis by (simp add: input_defs)
qed




text \<open>
  Claim C7 at module W, loaded from its file.  The text has four bytes and the
  relocation's offset is \<open>0xFFFFFFFC\<close>, so \<open>patch_offset + 4\<close> exceeds the text length;
  in \<open>uint32_t\<close> the sum is 0, the bounds check passes, and the patch goes to a site
  outside the text buffer instead of being refused as out of bounds.  An offset whose
  sum does not wrap, such as 2, is refused.
\<close>

theorem relocation_bounds_wrap:
  "load_objects fs_w [''w.obj''] = Inr [obj_w] \<and>
   layout_and_define_symbols [obj_w] Map.empty =
     Inr ([obj_w\<lparr>text_base_addr := 0, data_base_addr := 4\<rparr>], [''__START__'' \<mapsto> 0], 4, 0) \<and>
   length (text_section obj_w) < unat (reloc_offset (relocs obj_w ! 0)) + 4 \<and>
   reloc_offset (relocs obj_w ! 0) + 4 = 0 \<and>
   apply_relocations [obj_w\<lparr>text_base_addr := 0, data_base_addr := 4\<rparr>] [''__START__'' \<mapsto> 0] =
     Inl (MemoryViolation ''w.obj'') \<and>
   link_objects fs_w [''w.obj''] ''out.bin'' = (Inl (MemoryViolation ''w.obj''), fs_w) \<and>
   apply_reloc [''__START__'' \<mapsto> 0] obj_w (reloc 2 ''__START__'' RELOC_ABSOLUTE) =
     Inl (RelocationOutOfBounds ''w.obj'')"
proof -
  have ld: "load_objects fs_w [''w.obj''] = Inr [obj_w]"
    by (rule load_w)
  have r: "resolve [obj_w] = ({''__START__''}, [True])"
    by (simp add: resolve_def input_defs)
  have l: "layout_and_define_symbols [obj_w] Map.empty =
      Inr ([obj_w\<lparr>text_base_addr := 0, data_base_addr := 4\<rparr>], [''__START__'' \<mapsto> 0], 4, 0)"
    by (simp add: layout_and_define_symbols_def r active_objects_def total_text_def
          total_data_def)
       (simp add: input_defs symbol_address_def)
  have a: "apply_relocations [obj_w\<lparr>text_base_addr := 0, data_base_addr := 4\<rparr>] [''__START__'' \<mapsto> 0] =
      Inl (MemoryViolation ''w.obj'')"
    by (simp add: input_defs apply_reloc_def)
  have "link_objects fs_w [''w.obj''] ''out.bin'' = (Inl (MemoryViolation ''w.obj''), fs_w)"
    unfolding link_objects_def ld sum.case l prod.case a by (rule refl)
  moreover have "apply_reloc [''__START__'' \<mapsto> 0] obj_w (reloc 2 ''__START__'' RELOC_ABSOLUTE) =
      Inl (RelocationOutOfBounds ''w.obj'')"
    by (simp add: input_defs apply_reloc_def)
  ultimately show ?thesis using ld l a by (simp add: input_defs)
qed

section \<open>Dependency resolution: what is live, and that the loop ends\<close>

text \<open>
  Claim C1.  For every list of loaded modules the needed set the resolver computes is the
  set of names reachable from \<open>__START__\<close>, a module's flag is set exactly when the
  module exports a reachable name, and the modules kept for layout are the reachable
  modules in their input order; a module that exports only unreached names is dropped.
\<close>

theorem resolve_reachable:
  "fst (resolve objs) = reachable_names objs \<and>
   length (snd (resolve objs)) = length objs \<and>
   (\<forall>i < length objs. snd (resolve objs) ! i \<longleftrightarrow> reachable_module objs (objs ! i)) \<and>
   active_objects objs (snd (resolve objs)) = filter (reachable_module objs) objs"
proof -
  obtain nf af where r: "resolve objs = (nf, af)" by (cases "resolve objs")
  then have l: "resolve_loop objs {''__START__''} (replicate (length objs) False) = (nf, af)"
    by (simp add: resolve_def)
  have inv: "nf = reachable_names objs \<and> length af = length objs \<and>
     (\<forall>i < length objs. af ! i \<longleftrightarrow> reachable_module objs (objs ! i))"
    by (rule resolve_loop_reachable [OF _ _ _ _ l])
       (auto intro: reachable_names.entry)
  then have "active_objects objs af = filter (reachable_module objs) objs"
    by (intro active_objects_filter) simp_all
  with inv show ?thesis by (simp add: r)
qed

text \<open>Modules C, A, B: C exports only \<open>unused\<close> and is dropped.\<close>

theorem resolve_reachable_witness:
  "reachable_names [obj_c, obj_a, obj_b] = {''__START__'', ''helper''} \<and>
   filter (reachable_module [obj_c, obj_a, obj_b]) [obj_c, obj_a, obj_b] = [obj_a, obj_b]"
proof -
  have r: "resolve [obj_c, obj_a, obj_b] = ({''__START__'', ''helper''}, [False, True, True])"
    by (simp add: resolve_def input_defs insert_commute)
  from resolve_reachable [of "[obj_c, obj_a, obj_b]"] show ?thesis
    unfolding r by (simp add: active_objects_def)
qed

text \<open>
  Claim C9.  The resolution loop ends: some run of the loop body, at most the
  \<open>length objs + card (reloc_names objs)\<close>-th after the first, leaves \<open>changed\<close>
  false, all runs before it set it, and the loop returns the state of that run.  From
  run to run the needed set and the set of active modules only grow; the needed set stays
  within the entry symbol and the names that relocations of the inputs mention, and there
  is one flag per module.
\<close>

theorem resolve_terminates:
  "(\<exists>n \<le> length objs + card (reloc_names objs).
      \<not> snd (resolve_pass objs (resolve_state objs n)) \<and>
      (\<forall>m < n. snd (resolve_pass objs (resolve_state objs m))) \<and>
      resolve objs = fst (resolve_pass objs (resolve_state objs n))) \<and>
   (\<forall>n. fst (resolve_state objs n) \<subseteq> fst (resolve_state objs (Suc n)) \<and>
        (\<forall>i < length objs. snd (resolve_state objs n) ! i \<longrightarrow> snd (resolve_state objs (Suc n)) ! i) \<and>
        fst (resolve_state objs n) \<subseteq> insert ''__START__'' (reloc_names objs) \<and>
        length (snd (resolve_state objs n)) = length objs)"
proof -
  have "card (reloc_names objs - {''__START__''}) \<le> card (reloc_names objs)"
    by (rule card_mono [OF finite_reloc_names]) blast
  moreover have "length (filter Not (replicate (length objs) False)) = length objs"
    by simp
  ultimately have b: "length (filter Not (replicate (length objs) False)) +
      card (reloc_names objs - {''__START__''}) \<le> length objs + card (reloc_names objs)"
    by simp
  from resolve_loop_iterations [of "replicate (length objs) False" objs "{''__START__''}"]
  obtain n where "n \<le> length (filter Not (replicate (length objs) False)) +
        card (reloc_names objs - {''__START__''})"
      "\<not> snd (resolve_pass objs (resolve_state objs n))"
      "\<forall>m < n. snd (resolve_pass objs (resolve_state objs m))"
      "resolve objs = fst (resolve_pass objs (resolve_state objs n))"
    unfolding resolve_state_def resolve_def by blast
  with b have "\<exists>n \<le> length objs + card (reloc_names objs).
      \<not> snd (resolve_pass objs (resolve_state objs n)) \<and>
      (\<forall>m < n. snd (resolve_pass objs (resolve_state objs m))) \<and>
      resolve objs = fst (resolve_pass objs (resolve_state objs n))"
    by (intro exI [of _ n]) simp
  with resolve_state_grows resolve_state_invariant show ?thesis by blast
qed

text \<open>
  Modules C, A, B: the first run activates A and asks for \<open>helper\<close>, the second
  activates B, the third changes nothing and ends the loop.
\<close>

theorem resolve_terminates_witness:
  "snd (resolve_pass [obj_c, obj_a, obj_b] (resolve_state [obj_c, obj_a, obj_b] 0)) \<and>
   snd (resolve_pass [obj_c, obj_a, obj_b] (resolve_state [obj_c, obj_a, obj_b] 1)) \<and>
   resolve_pass [obj_c, obj_a, obj_b] (resolve_state [obj_c, obj_a, obj_b] 2) =
     (({''__START__'', ''helper''}, [False, True, True]), False) \<and>
   resolve [obj_c, obj_a, obj_b] = ({''__START__'', ''helper''}, [False, True, True])"
proof -
  let ?O = "[obj_c, obj_a, obj_b]"
  have p0: "resolve_pass ?O ({''__START__''}, [False, False, False]) =
      (({''__START__'', ''helper''}, [False, True, False]), True)"
    by (simp add: resolve_pass_def input_defs insert_commute)
  have p1: "resolve_pass ?O ({''__START__'', ''helper''}, [False, True, False]) =
      (({''__START__'', ''helper''}, [False, True, True]), True)"
    by (simp add: resolve_pass_def input_defs insert_commute)
  have p2: "resolve_pass ?O ({''__START__'', ''helper''}, [False, True, True]) =
      (({''__START__'', ''helper''}, [False, True, True]), False)"
    by (simp add: resolve_pass_def input_defs insert_commute)
  have s0: "resolve_state ?O 0 = ({''__START__''}, [False, False, False])"
    by (simp add: resolve_state_def)
  have s1: "resolve_state ?O 1 = ({''__START__'', ''helper''}, [False, True, False])"
    by (simp add: resolve_state_def p0)
  have s2: "resolve_state ?O 2 = ({''__START__'', ''helper''}, [False, True, True])"
    by (simp add: resolve_state_def numeral_2_eq_2 p0 p1)
  from resolve_terminates [of ?O] obtain n where
    stop: "\<not> snd (resolve_pass ?O (resolve_state ?O n))" and
    run: "\<forall>m < n. snd (resolve_pass ?O (resolve_state ?O m))" and
    res: "resolve ?O = fst (resolve_pass ?O (resolve_state ?O n))"
    by blast
  have "n = 2"
  proof (rule ccontr)
    assume "n \<noteq> 2"
    then consider "n = 0" | "n = 1" | "2 < n" by linarith
    then show False
    proof cases
      case 1
      from stop show False unfolding 1 s0 p0 by simp
    next
      case 2
      from stop show False unfolding 2 s1 p1 by simp
    next
      case 3
      with run have "snd (resolve_pass ?O (resolve_state ?O 2))" by blast
      then show False unfolding s2 p2 by simp
    qed
  qed
  with res have "resolve ?O = fst (resolve_pass ?O (resolve_state ?O 2))"
    by simp
  also have "\<dots> = ({''__START__'', ''helper''}, [False, True, True])"
    unfolding s2 p2 by simp
  finally show ?thesis unfolding s0 s1 s2 p0 p1 p2 by simp
qed

section \<open>Layout, symbol definition and the undefined-symbol check\<close>

text \<open>
  Claim C3, amended.  When \<open>layout_and_define_symbols\<close> succeeds, the objects it
  returns are the reachable modules in input order, changed only in their base addresses.
  The i-th of them has as \<open>text_base_addr\<close> the sum of the text sizes of those before
  it (0 for the first) and as \<open>data_base_addr\<close> the total text size plus the sum of
  the data sizes of those before it, all sums taken in \<open>uint32_t\<close>, that is modulo
  \<open>2 ^ 32\<close>.  Where the text and data sizes of the live modules together stay below
  \<open>2 ^ 32\<close>, they are the sums of the sizes as numbers.
\<close>

theorem layout_concatenation:
  assumes "layout_and_define_symbols objs gst0 = Inr (objs', gst, total_text_size, total_data_size)"
    and "live = filter (reachable_module objs) objs"
  shows "length objs' = length live \<and>
     total_text_size = sum_list (map (\<lambda>obj. text_size (header obj)) live) \<and>
     total_data_size = sum_list (map (\<lambda>obj. data_size (header obj)) live) \<and>
     (\<forall>i < length live.
        objs' ! i = (live ! i)
          \<lparr>text_base_addr := sum_list (map (\<lambda>obj. text_size (header obj)) (take i live)),
           data_base_addr := total_text_size +
              sum_list (map (\<lambda>obj. data_size (header obj)) (take i live))\<rparr>) \<and>
     (sum_list (map (\<lambda>obj. unat (text_size (header obj))) live) +
      sum_list (map (\<lambda>obj. unat (data_size (header obj))) live) < 2 ^ 32 \<longrightarrow>
        unat total_text_size = sum_list (map (\<lambda>obj. unat (text_size (header obj))) live) \<and>
        unat total_data_size = sum_list (map (\<lambda>obj. unat (data_size (header obj))) live) \<and>
        (\<forall>i < length live.
           unat (text_base_addr (objs' ! i)) =
             sum_list (map (\<lambda>obj. unat (text_size (header obj))) (take i live)) \<and>
           unat (data_base_addr (objs' ! i)) =
             sum_list (map (\<lambda>obj. unat (text_size (header obj))) live) +
             sum_list (map (\<lambda>obj. unat (data_size (header obj))) (take i live))))"
proof -
  let ?ts = "\<lambda>obj. text_size (header obj)" and ?ds = "\<lambda>obj. data_size (header obj)"
  let ?tn = "\<lambda>obj. unat (text_size (header obj))" and ?dn = "\<lambda>obj. unat (data_size (header obj))"
  from assms(1) obtain needed active where
    r: "resolve objs = (needed, active)" and
    l: "layout_objects needed (active_objects objs active) 0
          (total_text (active_objects objs active)) gst0 = Inr (objs', gst)" and
    tt: "total_text_size = total_text (active_objects objs active)" and
    td: "total_data_size = total_data (active_objects objs active)"
    by (rule layout_and_define_symbols_Inr)
  have live: "active_objects objs active = live"
    using resolve_characterisation [of objs] r assms(2) by simp
  note b = layout_objects_bases [OF l, unfolded live]
  have tts: "total_text_size = sum_list (map ?ts live)"
    and tds: "total_data_size = sum_list (map ?ds live)"
    using tt td live by (simp_all add: total_text_sum total_data_sum)
  have bases: "\<forall>i < length live. objs' ! i = (live ! i)
          \<lparr>text_base_addr := sum_list (map ?ts (take i live)),
           data_base_addr := total_text_size + sum_list (map ?ds (take i live))\<rparr>"
    using b tt live by simp
  have nat: "unat total_text_size = sum_list (map ?tn live) \<and>
        unat total_data_size = sum_list (map ?dn live) \<and>
        (\<forall>i < length live.
           unat (text_base_addr (objs' ! i)) = sum_list (map ?tn (take i live)) \<and>
           unat (data_base_addr (objs' ! i)) =
             sum_list (map ?tn live) + sum_list (map ?dn (take i live)))"
    if fit: "sum_list (map ?tn live) + sum_list (map ?dn live) < 2 ^ 32"
  proof -
    from fit have ft: "sum_list (map ?tn live) < 2 ^ 32" and fd: "sum_list (map ?dn live) < 2 ^ 32"
      by simp_all
    have ut: "unat total_text_size = sum_list (map ?tn live)"
      unfolding tts by (rule unat_sum_list [OF ft])
    have ud: "unat total_data_size = sum_list (map ?dn live)"
      unfolding tds by (rule unat_sum_list [OF fd])
    have "unat (text_base_addr (objs' ! i)) = sum_list (map ?tn (take i live)) \<and>
          unat (data_base_addr (objs' ! i)) =
             sum_list (map ?tn live) + sum_list (map ?dn (take i live))"
      if i: "i < length live" for i
    proof -
      have lt: "sum_list (map ?tn (take i live)) \<le> sum_list (map ?tn live)"
        and ld: "sum_list (map ?dn (take i live)) \<le> sum_list (map ?dn live)"
        by (rule sum_list_take_le)+
      have "sum_list (map ?tn (take i live)) < 2 ^ 32" using lt ft by simp
      then have a: "unat (sum_list (map ?ts (take i live))) = sum_list (map ?tn (take i live))"
        by (rule unat_sum_list)
      have "sum_list (map ?dn (take i live)) < 2 ^ 32" using ld fd by simp
      then have d: "unat (sum_list (map ?ds (take i live))) = sum_list (map ?dn (take i live))"
        by (rule unat_sum_list)
      have "unat total_text_size + unat (sum_list (map ?ds (take i live))) < 2 ^ 32"
        using ut d ld fit by simp
      then have "unat (total_text_size + sum_list (map ?ds (take i live))) =
          unat total_text_size + unat (sum_list (map ?ds (take i live)))"
        by (intro unat_add_lem [THEN iffD1]) simp
      with a d ut bases i show ?thesis by simp
    qed
    with ut ud show ?thesis by blast
  qed
  from b live tts tds bases nat show ?thesis by blast
qed

text \<open>
  Modules C, A, B: A is laid out at text 0 and data 8, B at text 4 and data 9, and C is
  not laid out at all.
\<close>

theorem layout_concatenation_witness:
  "layout_and_define_symbols [obj_c, obj_a, obj_b] Map.empty = Inr ([laid_a, laid_b], gst_ab, 8, 3) \<and>
   filter (reachable_module [obj_c, obj_a, obj_b]) [obj_c, obj_a, obj_b] = [obj_a, obj_b] \<and>
   text_base_addr laid_a = 0 \<and> data_base_addr laid_a = 8 \<and>
   text_base_addr laid_b = text_size (header obj_a) \<and>
   data_base_addr laid_b = 8 + data_size (header obj_a)"
proof -
  let ?O = "[obj_c, obj_a, obj_b]"
  have l: "layout_and_define_symbols ?O Map.empty = Inr ([laid_a, laid_b], gst_ab, 8, 3)"
    by (rule layout_cab)
  have f: "filter (reachable_module ?O) ?O = [obj_a, obj_b]"
    using resolve_characterisation [of ?O] unfolding resolve_cab
    by (simp add: active_objects_def)
  from layout_concatenation [OF l f [symmetric]]
  have b: "\<forall>i < length [obj_a, obj_b]. [laid_a, laid_b] ! i = ([obj_a, obj_b] ! i)
          \<lparr>text_base_addr := sum_list (map (\<lambda>obj. text_size (header obj)) (take i [obj_a, obj_b])),
           data_base_addr := 8 + sum_list (map (\<lambda>obj. data_size (header obj)) (take i [obj_a, obj_b]))\<rparr>"
    by blast
  have i0: "0 < length [obj_a, obj_b]" and i1: "Suc 0 < length [obj_a, obj_b]" by simp_all
  from b [rule_format, OF i0]
  have a: "laid_a = obj_a\<lparr>text_base_addr := 0, data_base_addr := 8\<rparr>" by simp
  from b [rule_format, OF i1]
  have b: "laid_b = obj_b\<lparr>text_base_addr := text_size (header obj_a),
                           data_base_addr := 8 + data_size (header obj_a)\<rparr>" by simp
  have "text_base_addr laid_a = 0" "data_base_addr laid_a = 8"
    by (subst a, simp)+
  moreover have "text_base_addr laid_b = text_size (header obj_a)"
    "data_base_addr laid_b = 8 + data_size (header obj_a)"
    by (subst b, simp)+
  ultimately have "text_base_addr laid_a = 0 \<and> data_base_addr laid_a = 8 \<and>
     text_base_addr laid_b = text_size (header obj_a) \<and>
     data_base_addr laid_b = 8 + data_size (header obj_a)"
    by simp
  with l f show ?thesis by simp
qed

text \<open>
  Claim C3 as stated fails when the sizes add up to \<open>2 ^ 32\<close> or more.  S, X and Y are
  loaded from their files, laid out and linked without error, all three live.  Their text sizes
  are 8, \<open>2 ^ 31\<close> and \<open>2 ^ 31\<close>, yet the total text size is 8 and not
  4294967304, the data of S is placed at 8, and Y, after 2147483656 bytes of text, is
  given a data base of 8 as well.
\<close>

theorem layout_wrap_counterexample:
  "fst (link_objects fs_big [''s.obj'', ''x.obj'', ''y.obj''] ''out.bin'') = Inr (8, 0) \<and>
   load_objects fs_big [''s.obj'', ''x.obj'', ''y.obj''] = Inr [obj_s, obj_x, obj_y] \<and>
   layout_and_define_symbols [obj_s, obj_x, obj_y] Map.empty =
     Inr ([obj_s\<lparr>text_base_addr := 0, data_base_addr := 8\<rparr>,
           obj_x\<lparr>text_base_addr := 8, data_base_addr := 8\<rparr>,
           obj_y\<lparr>text_base_addr := 0x80000008, data_base_addr := 8\<rparr>],
          [''__START__'' \<mapsto> 0, ''x'' \<mapsto> 8, ''y'' \<mapsto> 0x80000008], 8, 0) \<and>
   filter (reachable_module [obj_s, obj_x, obj_y]) [obj_s, obj_x, obj_y] = [obj_s, obj_x, obj_y] \<and>
   unat (text_size (header obj_s)) = 8 \<and>
   unat (text_size (header obj_x)) = 2147483648 \<and>
   unat (text_size (header obj_y)) = 2147483648 \<and>
   unat (text_size (header obj_s)) + unat (text_size (header obj_x)) +
     unat (text_size (header obj_y)) = 4294967304 \<and>
   unat (data_size (header obj_s)) = 0 \<and>
   unat (data_size (header obj_x)) = 0 \<and>
   unat (8 :: u32) \<noteq> 4294967304 \<and>
   unat (data_base_addr (obj_y\<lparr>text_base_addr := 0x80000008, data_base_addr := 8\<rparr>)) \<noteq>
     4294967304 + (unat (data_size (header obj_s)) + unat (data_size (header obj_x)))"
proof -
  let ?O = "[obj_s, obj_x, obj_y]"
  have f: "filter (reachable_module ?O) ?O = ?O"
    using resolve_characterisation [of ?O] unfolding resolve_big
    by (simp add: active_objects_def)
  have s: "unat (text_size (header obj_s)) = 8" "unat (data_size (header obj_s)) = 0"
    by (simp_all add: obj_s_def loaded_def)
  have x: "unat (text_size (header obj_x)) = 2147483648" "unat (data_size (header obj_x)) = 0"
    by (simp_all add: obj_x_def loaded_def length_zeros31)
  have y: "unat (text_size (header obj_y)) = 2147483648"
    by (simp add: obj_y_def loaded_def length_zeros31)
  have w: "writable fs_big ''out.bin''" by (simp add: fs_big_def)
  have k: "fst (link_objects fs_big [''s.obj'', ''x.obj'', ''y.obj''] ''out.bin'') = Inr (8, 0)"
    unfolding link_objects_def load_big sum.case layout_big prod.case relocate_big
      write_output_concat
    using w by simp
  from k load_big layout_big f s x y show ?thesis by simp
qed

text \<open>
  Claim C5, amended.  The binder registers only needed names.  If two live modules each
  hold a defined symbol of the same name and that name is needed, layout fails with
  \<open>DuplicateSymbol\<close> for a needed name that is registered more than once, and the
  link fails with it, leaving the file system as it was.  When layout succeeds, every
  needed name is registered exactly once and the symbol table has exactly the needed
  names.
\<close>

theorem duplicate_needed_symbol:
  assumes "load_objects fs input_files = Inr objs"
    and "resolve objs = (needed, active)"
    and "live = active_objects objs active"
  shows "(\<forall>i j s s'.
            i < length live \<and> j < length live \<and> i \<noteq> j \<and>
            s \<in> set (symbols (live ! i)) \<and> s' \<in> set (symbols (live ! j)) \<and>
            sym_type s = SYMBOL_DEFINED \<and> sym_type s' = SYMBOL_DEFINED \<and>
            sym_name s = sym_name s' \<and> sym_name s \<in> needed \<longrightarrow>
            (\<exists>n. n \<in> needed \<and> 1 < count_list (registered_names needed live) n \<and>
                 layout_and_define_symbols objs Map.empty = Inl (DuplicateSymbol n) \<and>
                 link_objects fs input_files output_path = (Inl (DuplicateSymbol n), fs))) \<and>
         (\<forall>objs' gst tt td.
            layout_and_define_symbols objs Map.empty = Inr (objs', gst, tt, td) \<longrightarrow>
            distinct (registered_names needed live) \<and> dom gst = needed \<and>
            set (registered_names needed live) = needed)"
proof (intro conjI allI impI)
  fix i j s s'
  assume h: "i < length live \<and> j < length live \<and> i \<noteq> j \<and>
            s \<in> set (symbols (live ! i)) \<and> s' \<in> set (symbols (live ! j)) \<and>
            sym_type s = SYMBOL_DEFINED \<and> sym_type s' = SYMBOL_DEFINED \<and>
            sym_name s = sym_name s' \<and> sym_name s \<in> needed"
  let ?xss = "map (\<lambda>obj. defined_names needed (symbols obj)) live"
  from h have "sym_name s \<in> set (defined_names needed (symbols (live ! i)))"
    unfolding set_defined_names by blast
  with h have xi: "sym_name s \<in> set (?xss ! i)" by simp
  from h have "sym_name s' \<in> set (defined_names needed (symbols (live ! j)))"
    unfolding set_defined_names by (metis (mono_tags, lifting) mem_Collect_eq)
  with h have xj: "sym_name s \<in> set (?xss ! j)" by simp
  from h have "i < j \<or> j < i" by auto
  then have "\<not> distinct (concat ?xss)"
  proof
    assume "i < j"
    with h xi xj show ?thesis by (intro concat_shared_not_distinct [of i j]) simp_all
  next
    assume "j < i"
    with h xi xj show ?thesis by (intro concat_shared_not_distinct [of j i]) simp_all
  qed
  then have nd: "\<not> distinct (registered_names needed live)"
    by (simp add: registered_names_def)
  have e0: "dom (Map.empty :: symbol_table) = set []" by simp
  obtain e where l: "layout_objects needed live 0 (total_text live) Map.empty = Inl e"
  proof (cases "layout_objects needed live 0 (total_text live) Map.empty")
    case (Inl e)
    then show ?thesis by (rule that)
  next
    case (Inr p)
    obtain objs' g where "p = (objs', g)" by (cases p)
    with Inr layout_objects_Inr [OF e0, of needed live 0 "total_text live" objs' g] nd
    show ?thesis by simp
  qed
  from layout_objects_Inl [OF e0 _ l] obtain n where
    n: "e = DuplicateSymbol n" "1 < count_list (registered_names needed live) n" by auto
  from n(2) have "count_list (registered_names needed live) n \<noteq> 0" by simp
  then have "n \<in> set (registered_names needed live)" by (simp add: count_list_0_iff)
  with registered_names_needed have nn: "n \<in> needed" by blast
  have lay: "layout_and_define_symbols objs Map.empty = Inl (DuplicateSymbol n)"
    unfolding layout_and_define_symbols_cases [OF assms(2)] assms(3) [symmetric] l n(1) by simp
  from link_objects_layout_error [OF assms(1) lay] nn n(2) lay
  show "\<exists>n. n \<in> needed \<and> 1 < count_list (registered_names needed live) n \<and>
                 layout_and_define_symbols objs Map.empty = Inl (DuplicateSymbol n) \<and>
                 link_objects fs input_files output_path = (Inl (DuplicateSymbol n), fs)"
    by blast
next
  fix objs' gst tt td
  assume ok: "layout_and_define_symbols objs Map.empty = Inr (objs', gst, tt, td)"
  from ok obtain nd ac where
    r: "resolve objs = (nd, ac)" and
    l: "layout_objects nd (active_objects objs ac) 0 (total_text (active_objects objs ac)) Map.empty =
          Inr (objs', gst)" and
    v: "verify_needed (sorted_list_of_set nd) gst = Inr ()"
    by (rule layout_and_define_symbols_Inr)
  from r assms(2) have eq: "nd = needed" "ac = active" by simp_all
  have e0: "dom (Map.empty :: symbol_table) = set []" by simp
  from layout_objects_Inr [OF e0 _ l [unfolded eq assms(3) [symmetric]]]
  have d: "distinct (registered_names needed live)" and dm: "dom gst = set (registered_names needed live)"
    by simp_all
  from v have "set (sorted_list_of_set needed) \<subseteq> dom gst"
    unfolding eq by (simp add: verify_needed_Inr)
  with finite_needed [OF assms(2)] have "needed \<subseteq> dom gst" by simp
  with dm registered_names_needed [of needed live] have "dom gst = needed" by blast
  with d dm show "distinct (registered_names needed live)" "dom gst = needed"
    "set (registered_names needed live) = needed" by simp_all
qed

text \<open>
  Modules E1 and D2 both export \<open>shared\<close>, and E1 refers to it: the link fails with
  \<open>DuplicateSymbol\<close> for \<open>shared\<close>.
\<close>

theorem duplicate_needed_symbol_witness:
  "load_objects fs_d [''e1.obj'', ''d2.obj''] = Inr [obj_e1, obj_d2] \<and>
   resolve [obj_e1, obj_d2] = ({''__START__'', ''helper'', ''shared''}, [True, True]) \<and>
   link_objects fs_d [''e1.obj'', ''d2.obj''] ''out.bin'' = (Inl (DuplicateSymbol ''shared''), fs_d)"
proof -
  let ?O = "[obj_e1, obj_d2]" and ?N = "{''__START__'', ''helper'', ''shared''}"
  let ?s = "exported ''shared'' SECTION_TEXT 0"
  have ld: "load_objects fs_d [''e1.obj'', ''d2.obj''] = Inr ?O"
    by (rule load_e1d2)
  have r: "resolve ?O = (?N, [True, True])"
    by (simp add: resolve_def input_defs insert_commute)
  have a: "?O = active_objects ?O [True, True]"
    by (simp add: active_objects_def)
  have names: "registered_names ?N ?O = [''__START__'', ''shared'', ''helper'', ''shared'']"
    by (simp add: registered_names_def defined_names_def input_defs)
  have h: "0 < length ?O \<and> 1 < length ?O \<and> (0::nat) \<noteq> 1 \<and>
      ?s \<in> set (symbols (?O ! 0)) \<and> ?s \<in> set (symbols (?O ! 1)) \<and>
      sym_type ?s = SYMBOL_DEFINED \<and> sym_type ?s = SYMBOL_DEFINED \<and>
      sym_name ?s = sym_name ?s \<and> sym_name ?s \<in> ?N"
    by (simp add: input_defs)
  from duplicate_needed_symbol [OF ld r a, of "''out.bin''", THEN conjunct1, rule_format, OF h]
  obtain n where c: "1 < count_list (registered_names ?N ?O) n"
    and l: "link_objects fs_d [''e1.obj'', ''d2.obj''] ''out.bin'' = (Inl (DuplicateSymbol n), fs_d)"
    by blast
  from c have "n = ''shared''"
    unfolding names by (auto split: if_splits)
  with l ld r show ?thesis by simp
qed

text \<open>
  Claim C5 as stated fails for a name that is not needed.  D1 and D2 are both live and
  both export \<open>shared\<close>, to which no relocation refers; \<open>shared\<close> is never
  registered, no duplicate is reported, and the link succeeds.
\<close>

theorem duplicate_unneeded_counterexample:
  "load_objects fs_d [''d1.obj'', ''d2.obj''] = Inr [obj_d1, obj_d2] \<and>
   resolve [obj_d1, obj_d2] = ({''__START__'', ''helper''}, [True, True]) \<and>
   exported ''shared'' SECTION_TEXT 0 \<in> set (symbols obj_d1) \<and>
   exported ''shared'' SECTION_TEXT 0 \<in> set (symbols obj_d2) \<and>
   sym_type (exported ''shared'' SECTION_TEXT 0) = SYMBOL_DEFINED \<and>
   layout_and_define_symbols [obj_d1, obj_d2] Map.empty =
     Inr ([obj_d1\<lparr>text_base_addr := 0, data_base_addr := 8\<rparr>,
           obj_d2\<lparr>text_base_addr := 4, data_base_addr := 8\<rparr>],
          [''__START__'' \<mapsto> 0, ''helper'' \<mapsto> 4], 8, 0) \<and>
   fst (link_objects fs_d [''d1.obj'', ''d2.obj''] ''out.bin'') = Inr (8, 0)"
proof -
  have ld: "load_objects fs_d [''d1.obj'', ''d2.obj''] = Inr [obj_d1, obj_d2]"
    by (rule load_d1d2)
  have r: "resolve [obj_d1, obj_d2] = ({''__START__'', ''helper''}, [True, True])"
    by (simp add: resolve_def input_defs insert_commute)
  have l: "layout_and_define_symbols [obj_d1, obj_d2] Map.empty =
     Inr ([obj_d1\<lparr>text_base_addr := 0, data_base_addr := 8\<rparr>,
           obj_d2\<lparr>text_base_addr := 4, data_base_addr := 8\<rparr>],
          [''__START__'' \<mapsto> 0, ''helper'' \<mapsto> 4], 8, 0)"
    by (simp add: layout_and_define_symbols_def r active_objects_def total_text_def
          total_data_def)
       (simp add: input_defs symbol_address_def)
  have ap: "apply_relocations
       [obj_d1\<lparr>text_base_addr := 0, data_base_addr := 8\<rparr>,
        obj_d2\<lparr>text_base_addr := 4, data_base_addr := 8\<rparr>]
       [''__START__'' \<mapsto> 0, ''helper'' \<mapsto> 4] =
     Inr [obj_d1\<lparr>text_base_addr := 0, data_base_addr := 8, text_section := [4, 0, 0, 0]\<rparr>,
          obj_d2\<lparr>text_base_addr := 4, data_base_addr := 8\<rparr>]"
    by (simp add: input_defs apply_reloc_def load32_def store32_def word_of_bytes_def
          bytes_of_word_def)
  have k: "fst (link_objects fs_d [''d1.obj'', ''d2.obj''] ''out.bin'') = Inr (8, 0)"
    unfolding link_objects_def ld sum.case l prod.case ap
    by (simp add: write_output_concat fs_d_def)
  show ?thesis using ld r l k by (simp add: input_defs)
qed

text \<open>
  Claim C6.  Let the input files load.  If the binder has gone through all live modules
  without a duplicate and some needed name has no address, then layout fails with
  \<open>UndefinedSymbol\<close> for a needed name without an address (the first in the order of
  the needed set), and so does the link, with the file system unchanged: no output file
  is written.  In particular, when no module exports \<open>__START__\<close> the link fails
  with \<open>UndefinedSymbol\<close> for \<open>__START__\<close>.  Whatever makes a link fail, the
  file system after it is the one before it.
\<close>

theorem undefined_needed_symbol:
  assumes "load_objects fs input_files = Inr objs"
  shows "(\<forall>needed active objs' gst.
            resolve objs = (needed, active) \<and>
            layout_objects needed (active_objects objs active) 0
              (total_text (active_objects objs active)) Map.empty = Inr (objs', gst) \<and>
            (\<exists>n \<in> needed. gst n = None) \<longrightarrow>
            (\<exists>m. m \<in> needed \<and> gst m = None \<and> (\<forall>k \<in> needed. gst k = None \<longrightarrow> m \<le> k) \<and>
                 layout_and_define_symbols objs Map.empty = Inl (UndefinedSymbol m) \<and>
                 link_objects fs input_files output_path = (Inl (UndefinedSymbol m), fs))) \<and>
         ((\<forall>obj \<in> set objs. \<not> exports obj ''__START__'') \<longrightarrow>
            link_objects fs input_files output_path = (Inl (UndefinedSymbol ''__START__''), fs)) \<and>
         (\<forall>e fs'. link_objects fs input_files output_path = (Inl e, fs') \<longrightarrow> fs' = fs)"
proof -
  have part1: "\<exists>m. m \<in> needed \<and> gst m = None \<and> (\<forall>k \<in> needed. gst k = None \<longrightarrow> m \<le> k) \<and>
                 layout_and_define_symbols objs Map.empty = Inl (UndefinedSymbol m) \<and>
                 link_objects fs input_files output_path = (Inl (UndefinedSymbol m), fs)"
    if r: "resolve objs = (needed, active)"
      and l: "layout_objects needed (active_objects objs active) 0
              (total_text (active_objects objs active)) Map.empty = Inr (objs', gst)"
      and u: "\<exists>n \<in> needed. gst n = None"
    for needed active objs' gst
  proof -
    from u obtain n where n: "n \<in> needed" "gst n = None" by blast
    from verify_needed_missing [of needed n gst, OF finite_needed [OF r] n] obtain m where
      m: "m \<in> needed" "gst m = None" "\<forall>k \<in> needed. gst k = None \<longrightarrow> m \<le> k"
      and v: "verify_needed (sorted_list_of_set needed) gst = Inl (UndefinedSymbol m)"
      by blast
    have lay: "layout_and_define_symbols objs Map.empty = Inl (UndefinedSymbol m)"
      unfolding layout_and_define_symbols_cases [OF r] l by (simp add: v)
    from link_objects_layout_error [OF assms lay] m lay show ?thesis by blast
  qed
  have part2: "link_objects fs input_files output_path = (Inl (UndefinedSymbol ''__START__''), fs)"
    if none: "\<forall>obj \<in> set objs. \<not> exports obj ''__START__''"
  proof -
    obtain needed active where r: "resolve objs = (needed, active)" by (cases "resolve objs")
    from resolve_characterisation [of objs] r
    have nd: "needed = reachable_names objs"
      and live: "active_objects objs active = filter (reachable_module objs) objs" by simp_all
    from nd reachable_names_no_entry [OF none] have n1: "needed = {''__START__''}" by simp
    have "\<not> reachable_module objs obj" if "obj \<in> set objs" for obj
      using that none unfolding reachable_module_def reachable_names_no_entry [OF none] by simp
    then have "filter (reachable_module objs) objs = []"
      unfolding filter_empty_conv by blast
    with live have e: "active_objects objs active = []" by simp
    have l: "layout_objects needed (active_objects objs active) 0
              (total_text (active_objects objs active)) Map.empty = Inr ([], Map.empty)"
      unfolding e by simp
    have u: "\<exists>n \<in> needed. (Map.empty :: symbol_table) n = None" using n1 by simp
    from part1 [OF r l u] n1 show ?thesis by auto
  qed
  have part3: "\<forall>e fs'. link_objects fs input_files output_path = (Inl e, fs') \<longrightarrow> fs' = fs"
    by (intro allI impI) (rule link_objects_failure_keeps_files)
  show ?thesis
  proof (intro conjI)
    show "\<forall>needed active objs' gst.
            resolve objs = (needed, active) \<and>
            layout_objects needed (active_objects objs active) 0
              (total_text (active_objects objs active)) Map.empty = Inr (objs', gst) \<and>
            (\<exists>n \<in> needed. gst n = None) \<longrightarrow>
            (\<exists>m. m \<in> needed \<and> gst m = None \<and> (\<forall>k \<in> needed. gst k = None \<longrightarrow> m \<le> k) \<and>
                 layout_and_define_symbols objs Map.empty = Inl (UndefinedSymbol m) \<and>
                 link_objects fs input_files output_path = (Inl (UndefinedSymbol m), fs))"
    proof (intro allI impI)
      fix needed active objs' gst
      assume h: "resolve objs = (needed, active) \<and>
            layout_objects needed (active_objects objs active) 0
              (total_text (active_objects objs active)) Map.empty = Inr (objs', gst) \<and>
            (\<exists>n \<in> needed. gst n = None)"
      then have h1: "resolve objs = (needed, active)"
        and h2: "layout_objects needed (active_objects objs active) 0
              (total_text (active_objects objs active)) Map.empty = Inr (objs', gst)"
        and h3: "\<exists>n \<in> needed. gst n = None" by simp_all
      show "\<exists>m. m \<in> needed \<and> gst m = None \<and> (\<forall>k \<in> needed. gst k = None \<longrightarrow> m \<le> k) \<and>
                 layout_and_define_symbols objs Map.empty = Inl (UndefinedSymbol m) \<and>
                 link_objects fs input_files output_path = (Inl (UndefinedSymbol m), fs)"
        by (rule part1 [OF h1 h2 h3])
    qed
  next
    show "(\<forall>obj \<in> set objs. \<not> exports obj ''__START__'') \<longrightarrow>
            link_objects fs input_files output_path = (Inl (UndefinedSymbol ''__START__''), fs)"
      using part2 by (intro impI)
  next
    show "\<forall>e fs'. link_objects fs input_files output_path = (Inl e, fs') \<longrightarrow> fs' = fs"
      by (rule part3)
  qed
qed

text \<open>
  Module U alone: \<open>missing\<close> is needed and has no address.  Module C alone: nobody
  exports \<open>__START__\<close>.  Neither link writes \<open>out.bin\<close>.
\<close>

theorem undefined_needed_symbol_witness:
  "load_objects fs_u [''u.obj''] = Inr [obj_u] \<and>
   link_objects fs_u [''u.obj''] ''out.bin'' = (Inl (UndefinedSymbol ''missing''), fs_u) \<and>
   load_objects fs_u [''c.obj''] = Inr [obj_c] \<and>
   link_objects fs_u [''c.obj''] ''out.bin'' = (Inl (UndefinedSymbol ''__START__''), fs_u) \<and>
   files fs_u ''out.bin'' = None"
proof -
  have ldu: "load_objects fs_u [''u.obj''] = Inr [obj_u]"
    by (rule load_u)
  have ldc: "load_objects fs_u [''c.obj''] = Inr [obj_c]"
    by (rule load_c)
  have r: "resolve [obj_u] = ({''__START__'', ''missing''}, [True])"
    by (simp add: resolve_def input_defs insert_commute)
  have l: "layout_objects {''__START__'', ''missing''} (active_objects [obj_u] [True]) 0
             (total_text (active_objects [obj_u] [True])) Map.empty =
           Inr ([obj_u\<lparr>text_base_addr := 0, data_base_addr := 4\<rparr>], [''__START__'' \<mapsto> 0])"
    by (simp add: active_objects_def total_text_def)
       (simp add: input_defs symbol_address_def)
  have u: "\<exists>n \<in> {''__START__'', ''missing''}. [''__START__'' \<mapsto> (0::u32)] n = None"
    by simp
  from undefined_needed_symbol [OF ldu, of "''out.bin''", THEN conjunct1, rule_format,
      OF conjI [OF r conjI [OF l u]]]
  obtain m where m: "m \<in> {''__START__'', ''missing''}" "[''__START__'' \<mapsto> (0::u32)] m = None"
    and k: "link_objects fs_u [''u.obj''] ''out.bin'' = (Inl (UndefinedSymbol m), fs_u)"
    by blast
  from m have "m = ''missing''" by (auto split: if_splits)
  with k have ku: "link_objects fs_u [''u.obj''] ''out.bin'' = (Inl (UndefinedSymbol ''missing''), fs_u)"
    by simp
  have none: "\<forall>obj \<in> set [obj_c]. \<not> exports obj ''__START__''"
    by (simp add: exports_def input_defs)
  from undefined_needed_symbol [OF ldc, of "''out.bin''", THEN conjunct2, THEN conjunct1,
      THEN mp, OF none]
  have kc: "link_objects fs_u [''c.obj''] ''out.bin'' = (Inl (UndefinedSymbol ''__START__''), fs_u)" .
  have "files fs_u ''out.bin'' = None" by (simp add: fs_u_def)
  with ldu ldc ku kc show ?thesis by simp
qed

section \<open>The loader and short files\<close>

text \<open>
  Claim C8, amended.  The loader checks no read and has no error for a short file.  For a
  file that holds a complete header with the right magic and fewer bytes after it than
  the header declares, the outcome depends on memory alone.  If the declared text, data,
  symbol records and relocation records fit into the free memory, the loader returns a
  module built from the short read: the four sections have the declared sizes and are
  read in that order from the rest of the file continued with zero bytes.  If they do
  not fit, a \<open>resize\<close> throws and the run is aborted.
\<close>

theorem load_object_file_zero_fill:
  assumes "files fs path = Some contents"
    and "20 \<le> length contents"
    and "load32 contents 0 = LINKER_MAGIC"
    and "hdr = decode_header (take 20 contents)"
    and "rest = drop 20 contents"
    and "n = unat (text_size hdr)" and "d = unat (data_size hdr)"
    and "sc = unat (symtable_count hdr)" and "rc = unat (reloc_count hdr)"
    and "length rest < n + d + sc * 76 + rc * 72"
  shows "load_object_file fs path =
     (if n + d + sc * 76 + rc * 72 \<le> free_memory fs
      then Inr \<lparr>filename = path, header = hdr,
           text_section = zero_padded n rest,
           data_section = zero_padded d (drop n rest),
           symbols = map decode_symbol
                       (split_records 76 sc (zero_padded (sc * 76) (drop (n + d) rest))),
           relocs = map decode_reloc
                       (split_records 72 rc (zero_padded (rc * 72) (drop (n + d + sc * 76) rest))),
           text_base_addr = 0, data_base_addr = 0\<rparr>
      else Inl (BadAlloc path)) \<and>
     (n + d + sc * 76 + rc * 72 \<le> free_memory fs \<longrightarrow>
        (\<exists>obj. load_object_file fs path = Inr obj \<and>
           length (text_section obj) = n \<and> length (data_section obj) = d \<and>
           length (symbols obj) = sc \<and> length (relocs obj) = rc))"
proof -
  note e = load_object_file_padded [OF assms(1-9)]
  have "\<exists>obj. load_object_file fs path = Inr obj \<and>
           length (text_section obj) = n \<and> length (data_section obj) = d \<and>
           length (symbols obj) = sc \<and> length (relocs obj) = rc"
    if "n + d + sc * 76 + rc * 72 \<le> free_memory fs"
    unfolding e using that by (simp add: length_zero_padded length_split_records)
  with e show ?thesis by blast
qed

text \<open>
  The file of module T2 holds 100 bytes; cut to 94 it lacks the end of the symbol
  record, and the loader returns the very module of the full file.  The 20 bytes of
  \<open>h.obj\<close> declare \<open>2 ^ 32 - 1\<close> symbol records, more than 300 GB, and the run is
  aborted.
\<close>

theorem load_object_file_zero_fill_witness:
  "files fs_t ''t2.obj'' = Some file_t2 \<and>
   length file_t2 = 94 \<and>
   length (file_of obj_t2) = 100 \<and>
   load_object_file fs_t ''t2.obj'' = Inr obj_t2 \<and>
   files fs_t ''h.obj'' = Some file_h \<and>
   length file_h = 20 \<and>
   symtable_count (decode_header (take 20 file_h)) = 0xFFFFFFFF \<and>
   free_memory fs_t = 68719476736 \<and>
   load_object_file fs_t ''h.obj'' = Inl (BadAlloc ''h.obj'')"
proof -
  let ?H = "\<lparr>magic = LINKER_MAGIC, text_size = 4, data_size = 0,
             symtable_count = 1, reloc_count = 0 :: u32\<rparr>"
  let ?G = "\<lparr>magic = LINKER_MAGIC, text_size = 0, data_size = 0,
             symtable_count = 0xFFFFFFFF, reloc_count = 0 :: u32\<rparr>"
  have fm: "free_memory fs_t = 68719476736" by (simp add: fs_t_def)
  have f: "files fs_t ''t2.obj'' = Some file_t2" by (simp add: fs_t_def)
  have len: "length file_t2 = 94" and full: "length (file_of obj_t2) = 100"
    by code_simp+
  have l20: "20 \<le> length file_t2" using len by simp
  have m: "load32 file_t2 0 = LINKER_MAGIC" by code_simp
  have hd: "?H = decode_header (take 20 file_t2)"
    by code_simp
  have n: "4 = unat (text_size ?H)" "0 = unat (data_size ?H)"
    "1 = unat (symtable_count ?H)" "0 = unat (reloc_count ?H)"
    by simp_all
  have tr: "length (drop 20 file_t2) < 4 + 0 + 1 * 76 + 0 * 72"
    using len by simp
  note t = load_object_file_zero_fill [OF f l20 m hd refl n tr, THEN conjunct1]
  have e: "Inr \<lparr>filename = ''t2.obj'', header = ?H,
           text_section = zero_padded 4 (drop 20 file_t2),
           data_section = zero_padded 0 (drop 4 (drop 20 file_t2)),
           symbols = map decode_symbol
                       (split_records 76 1 (zero_padded (1 * 76) (drop (4 + 0) (drop 20 file_t2)))),
           relocs = map decode_reloc
                       (split_records 72 0 (zero_padded (0 * 72) (drop (4 + 0 + 1 * 76) (drop 20 file_t2)))),
           text_base_addr = 0, data_base_addr = 0\<rparr> = (Inr obj_t2 :: error + LoadedObject)"
    by code_simp
  have t2: "load_object_file fs_t ''t2.obj'' = Inr obj_t2"
    unfolding t fm e by simp
  have fh: "files fs_t ''h.obj'' = Some file_h" by (simp add: fs_t_def)
  have lenh: "length file_h = 20" by code_simp
  have l20h: "20 \<le> length file_h" using lenh by simp
  have mh: "load32 file_h 0 = LINKER_MAGIC" by code_simp
  have hdh: "?G = decode_header (take 20 file_h)"
    by code_simp
  have nh: "0 = unat (text_size ?G)" "0 = unat (data_size ?G)"
    "4294967295 = unat (symtable_count ?G)" "0 = unat (reloc_count ?G)"
    by simp_all
  have trh: "length (drop 20 file_h) < 0 + 0 + 4294967295 * 76 + 0 * 72"
    using lenh by simp
  note h = load_object_file_zero_fill [OF fh l20h mh hdh refl nh trh, THEN conjunct1]
  have h2: "load_object_file fs_t ''h.obj'' = Inl (BadAlloc ''h.obj'')"
    unfolding h fm by simp
  have sc: "symtable_count (decode_header (take 20 file_h)) = 0xFFFFFFFF"
    unfolding hdh [symmetric] by simp
  from f len full t2 fh lenh sc fm h2 show ?thesis by simp
qed

text \<open>
  Claim C8 as stated fails: \<open>t.obj\<close> declares four bytes of text, two bytes follow
  its header, and the loader returns a module whose text is those two bytes and two zero
  bytes.
\<close>

theorem load_object_file_short_counterexample:
  "files fs_t ''t.obj'' = Some file_t \<and>
   length file_t = 22 \<and>
   text_size (decode_header (take 20 file_t)) = 4 \<and>
   length (drop 20 file_t) = 2 \<and>
   load_object_file fs_t ''t.obj'' = Inr obj_t"
proof -
  have "files fs_t ''t.obj'' = Some file_t" by (simp add: fs_t_def)
  moreover have "length file_t = 22" by code_simp
  moreover have "text_size (decode_header (take 20 file_t)) = 4" by code_simp
  moreover have "length (drop 20 file_t) = 2" by code_simp
  ultimately show ?thesis using load_t by simp
qed

section \<open>The output file\<close>




end
